theory Spec2Isabelle
  imports Main
begin

section \<open>JavaScript values\<close>

text \<open>
  The values \<^verbatim>\<open>src/index.js\<close> handles. Primitives are compared by content, everything
  else by identity, which is what \<^verbatim>\<open>===\<close> and \<^verbatim>\<open>Array.prototype.indexOf\<close> do:
  functions and promises carry an identity number, plain objects and arrays are references
  into a heap, so that two references can share a cell and a cell can refer to itself.
  \<open>JProxy\<close> is the recording callback the wrapper builds at lines 112-117.
  Numbers are the integers; objects are plain data (own enumerable string-keyed data
  members, in enumeration order). Accessors, symbols, BigInt, boxed primitives and
  non-finite numbers are not part of this universe. What a function of the user's does
  when it is called is a \<open>completion\<close>: it returns a value or throws one.
\<close>

type_synonym addr = nat

datatype jv =
    JUndefined | JNull | JBool bool | JNum int | JStr string
  | JFun nat | JProxy | JPromise nat | JRef addr

datatype hcell = HObj "(string \<times> jv) list" | HArr "jv list"

type_synonym heap = "(addr \<times> hcell) list"

datatype completion = Return jv | Throw jv

definition is_callable :: "jv \<Rightarrow> bool" where
  \<comment> \<open>\<^verbatim>\<open>typeof v === 'function'\<close>\<close>
  "is_callable v = (case v of JFun _ \<Rightarrow> True | JProxy \<Rightarrow> True | _ \<Rightarrow> False)"

definition truthy :: "jv \<Rightarrow> bool" where
  "truthy v =
     (case v of JUndefined \<Rightarrow> False | JNull \<Rightarrow> False | JBool b \<Rightarrow> b
      | JNum n \<Rightarrow> n \<noteq> 0 | JStr s \<Rightarrow> s \<noteq> [] | _ \<Rightarrow> True)"

section \<open>The library's JSON.stringify\<close>

text \<open>
  \<^verbatim>\<open>JSON.stringify(value, replacer)\<close> as ECMA-262 defines it for a replacer function:
  \<open>SerializeJSONProperty\<close> reads a member, lets a callable \<^verbatim>\<open>toJSON\<close> member transform
  it, calls the replacer with the holder as \<^verbatim>\<open>this\<close>, and serializes what the replacer
  returned; objects and arrays are serialized member by member, after a check that the value
  is not on the library's own stack \<open>J\<close> of values being serialized (a TypeError otherwise).
  The replacer is a closure with mutable state; here it is a function from its state to its
  result and next state. The result is the JSON document as a tree, or no document
  (\<^verbatim>\<open>undefined\<close>); \<open>render\<close> below writes the tree as text.

  A \<^verbatim>\<open>toJSON\<close> hook is user code: what it does is the parameter \<open>toJSON\<close>, which gives,
  for the function, the value it is called on and the key, the value the hook returns or
  what it throws (\<open>Thrown\<close>); a hook is taken to leave the heap as it is. A reference without
  a cell (\<open>DanglingRef\<close>) cannot arise in JavaScript. A number is written in decimal, which is
  what the library does for the integers below \<open>10^21\<close>.
\<close>

datatype json =
    JsNull | JsBool bool | JsNum int | JsStr string
  | JsArr "json list" | JsObj "(string \<times> json) list"

datatype ser_error = CircularStructure | Thrown jv | DanglingRef

type_synonym hook = "jv \<Rightarrow> jv \<Rightarrow> string \<Rightarrow> completion"

definition digit_char :: "nat \<Rightarrow> char" where
  "digit_char d = ''0123456789'' ! d"

function show_nat :: "nat \<Rightarrow> string" where
  "show_nat n = (if n < 10 then [digit_char n] else show_nat (n div 10) @ [digit_char (n mod 10)])"
  by pat_completeness auto
termination
  by (relation "measure id") auto

definition show_int :: "int \<Rightarrow> string" where
  "show_int i = (if i < 0 then ''-'' @ show_nat (nat (- i)) else show_nat (nat i))"

definition toJSON_of :: "heap \<Rightarrow> jv \<Rightarrow> jv option" where
  \<comment> \<open>the \<^verbatim>\<open>toJSON\<close> member of \<open>v\<close>, when it is callable\<close>
  "toJSON_of H v =
     (case v of
        JRef a \<Rightarrow>
          (case map_of H a of
             Some (HObj props) \<Rightarrow>
               (case map_of props ''toJSON'' of
                  Some f \<Rightarrow> (if is_callable f then Some f else None)
                | None \<Rightarrow> None)
           | _ \<Rightarrow> None)
      | _ \<Rightarrow> None)"

definition has_toJSON :: "heap \<Rightarrow> jv \<Rightarrow> bool" where
  "has_toJSON H v = (toJSON_of H v \<noteq> None)"

definition members :: "hcell \<Rightarrow> (string \<times> jv) list" where
  \<comment> \<open>the members JSON.stringify visits, in order; an array's keys are its indices as strings\<close>
  "members c = (case c of HObj props \<Rightarrow> props
                | HArr xs \<Rightarrow> zip (map show_nat [0..<length xs]) xs)"

definition assemble :: "hcell \<Rightarrow> (string \<times> json option) list \<Rightarrow> json" where
  \<comment> \<open>an object leaves out the members serialized to \<^verbatim>\<open>undefined\<close>, an array writes null\<close>
  "assemble c ms =
     (case c of
        HObj _ \<Rightarrow> JsObj (List.map_filter (\<lambda>(k, r). map_option (Pair k) r) ms)
      | HArr _ \<Rightarrow> JsArr (map (\<lambda>(k, r). case r of None \<Rightarrow> JsNull | Some j \<Rightarrow> j) ms))"

definition unvisited :: "heap \<Rightarrow> jv list \<Rightarrow> nat" where
  "unvisited H J = card (fst ` set H - {a. JRef a \<in> set J})"

function SerializeJSONProperty ::
    "heap \<Rightarrow> hook \<Rightarrow> ('s \<Rightarrow> jv \<Rightarrow> string \<Rightarrow> jv \<Rightarrow> 's \<times> jv) \<Rightarrow> jv list \<Rightarrow> 's \<Rightarrow> jv \<Rightarrow> string \<Rightarrow> jv
      \<Rightarrow> 's \<times> (ser_error + json option)"
  and SerializeMembers ::
    "heap \<Rightarrow> hook \<Rightarrow> ('s \<Rightarrow> jv \<Rightarrow> string \<Rightarrow> jv \<Rightarrow> 's \<times> jv) \<Rightarrow> jv list \<Rightarrow> 's \<Rightarrow> jv
      \<Rightarrow> (string \<times> jv) list \<Rightarrow> 's \<times> (ser_error + (string \<times> json option) list)"
where
  "SerializeJSONProperty H toJSON rep J s holder key x =
     (case (case toJSON_of H x of None \<Rightarrow> Return x | Some f \<Rightarrow> toJSON f x key) of
        Throw e \<Rightarrow> (s, Inl (Thrown e))
      | Return x1 \<Rightarrow>
        (case rep s holder key x1 of
           (s1, v) \<Rightarrow>
             (case v of
                JUndefined \<Rightarrow> (s1, Inr None)
              | JNull \<Rightarrow> (s1, Inr (Some JsNull))
              | JBool b \<Rightarrow> (s1, Inr (Some (JsBool b)))
              | JNum n \<Rightarrow> (s1, Inr (Some (JsNum n)))
              | JStr t \<Rightarrow> (s1, Inr (Some (JsStr t)))
              | JFun _ \<Rightarrow> (s1, Inr None)
              | JProxy \<Rightarrow> (s1, Inr None)
              | JPromise _ \<Rightarrow> (s1, Inr (Some (JsObj [])))
              | JRef a \<Rightarrow>
                  (case map_of H a of
                     None \<Rightarrow> (s1, Inl DanglingRef)
                   | Some cell \<Rightarrow>
                       if v \<in> set J then (s1, Inl CircularStructure)
                       else
                         (case SerializeMembers H toJSON rep (J @ [v]) s1 v (members cell) of
                            (s2, Inl e) \<Rightarrow> (s2, Inl e)
                          | (s2, Inr ms) \<Rightarrow> (s2, Inr (Some (assemble cell ms))))))))"
| "SerializeMembers H toJSON rep J s holder [] = (s, Inr [])"
| "SerializeMembers H toJSON rep J s holder ((k, x) # rest) =
     (case SerializeJSONProperty H toJSON rep J s holder k x of
        (s1, Inl e) \<Rightarrow> (s1, Inl e)
      | (s1, Inr r) \<Rightarrow>
          (case SerializeMembers H toJSON rep J s1 holder rest of
             (s2, Inl e) \<Rightarrow> (s2, Inl e)
           | (s2, Inr rs) \<Rightarrow> (s2, Inr ((k, r) # rs))))"
  by pat_completeness auto
termination
proof (relation "inv_image (less_than <*lex*> less_than)
      (\<lambda>x. case x of
          Inl (H, toJSON, rep, J, s, holder, key, v) \<Rightarrow> (unvisited H J, 0)
        | Inr (H, toJSON, rep, J, s, holder, ms) \<Rightarrow> (unvisited H J, Suc (length ms)))", goal_cases)
  case 1
  show ?case by auto
next
  case (2 H toJSON rep J s holder key x x1 xa y x9 x2)
  have "x9 \<in> fst ` set H"
    using 2 by (metis map_of_SomeD fst_conv image_eqI)
  moreover have "JRef x9 \<notin> set J" using 2 by simp
  ultimately have "fst ` set H - {a. JRef a \<in> set (J @ [JRef x9])}
      \<subset> fst ` set H - {a. JRef a \<in> set J}"
    by auto
  then have "unvisited H (J @ [JRef x9]) < unvisited H J"
    unfolding unvisited_def by (intro psubset_card_mono) auto
  then show ?case using 2 by simp
next
  case 3
  then show ?case by simp
next
  case 4
  then show ?case by simp
qed

declare SerializeJSONProperty.simps [simp del]

fun quote_char :: "char \<Rightarrow> string" where
  "quote_char c =
     (if c = CHR 0x22 then [CHR 0x5C, CHR 0x22]
      else if c = CHR 0x5C then [CHR 0x5C, CHR 0x5C]
      else if c = CHR 0x08 then [CHR 0x5C, CHR ''b'']
      else if c = CHR 0x09 then [CHR 0x5C, CHR ''t'']
      else if c = CHR 0x0A then [CHR 0x5C, CHR ''n'']
      else if c = CHR 0x0C then [CHR 0x5C, CHR ''f'']
      else if c = CHR 0x0D then [CHR 0x5C, CHR ''r'']
      else if (of_char c :: nat) < 32
        then [CHR 0x5C, CHR ''u'', CHR ''0'', CHR ''0'',
              ''0123456789abcdef'' ! ((of_char c :: nat) div 16),
              ''0123456789abcdef'' ! ((of_char c :: nat) mod 16)]
      else [c])"

definition quote :: "string \<Rightarrow> string" where
  "quote s = [CHR 0x22] @ concat (map quote_char s) @ [CHR 0x22]"

fun join_comma :: "string list \<Rightarrow> string" where
  "join_comma [] = []"
| "join_comma [k] = k"
| "join_comma (k # ks) = k @ '','' @ join_comma ks"

fun render :: "json \<Rightarrow> string" where
  "render JsNull = ''null''"
| "render (JsBool b) = (if b then ''true'' else ''false'')"
| "render (JsNum n) = show_int n"
| "render (JsStr s) = quote s"
| "render (JsArr xs) = ''['' @ join_comma (map render xs) @ '']''"
| "render (JsObj kvs) = ''{'' @ join_comma (map (\<lambda>(k, j). quote k @ '':'' @ render j) kvs) @ ''}''"

definition JSON_document ::
    "heap \<Rightarrow> hook \<Rightarrow> ('s \<Rightarrow> jv \<Rightarrow> string \<Rightarrow> jv \<Rightarrow> 's \<times> jv) \<Rightarrow> 's \<Rightarrow> jv
      \<Rightarrow> ser_error + json option" where
  \<comment> \<open>The first call is for the key \<^verbatim>\<open>""\<close> of a wrapper object \<^verbatim>\<open>{"": value}\<close> that exists only
      for that call; the holder passed here stands for it.\<close>
  "JSON_document H toJSON rep s0 v = snd (SerializeJSONProperty H toJSON rep [] s0 JUndefined [] v)"

definition JSON_stringify ::
    "heap \<Rightarrow> hook \<Rightarrow> ('s \<Rightarrow> jv \<Rightarrow> string \<Rightarrow> jv \<Rightarrow> 's \<times> jv) \<Rightarrow> 's \<Rightarrow> jv
      \<Rightarrow> ser_error + string option" where
  "JSON_stringify H toJSON rep s0 v =
     map_sum id (map_option render) (JSON_document H toJSON rep s0 v)"

section \<open>The safe serializer (lines 33-64)\<close>

text \<open>
  \<^verbatim>\<open>stringifySafeSerializer(replacer, cycleReplacer)\<close> returns a closure over the arrays
  \<^verbatim>\<open>stack\<close> and \<^verbatim>\<open>keys\<close>; \<open>ctx\<close> is that closure's state. \<open>indexOf\<close> returns \<open>-1\<close> for an
  absent element, as the array method does, and \<^verbatim>\<open>~thisPos\<close> is non-zero exactly when
  \<^verbatim>\<open>thisPos\<close> is not \<open>-1\<close>. \<^verbatim>\<open>stack.splice(thisPos + 1)\<close> keeps the first \<open>thisPos + 1\<close>
  elements; \<^verbatim>\<open>keys.splice(thisPos, Infinity, key)\<close> keeps the first \<open>thisPos\<close> and appends
  \<^verbatim>\<open>key\<close>.
\<close>

record ctx =
  stack :: "jv list"
  keys :: "string list"

fun indexOf :: "'a list \<Rightarrow> 'a \<Rightarrow> int" where
  "indexOf [] v = - 1"
| "indexOf (x # xs) v =
     (if x = v then 0 else (let i = indexOf xs v in if i = - 1 then - 1 else i + 1))"

definition slice0 :: "'a list \<Rightarrow> int \<Rightarrow> 'a list" where
  \<comment> \<open>\<^verbatim>\<open>xs.slice(0, n)\<close>; a negative \<open>n\<close> counts from the end\<close>
  "slice0 xs n = (if n < 0 then take (length xs - nat (- n)) xs else take (nat n) xs)"

fun join_dot :: "string list \<Rightarrow> string" where
  "join_dot [] = []"
| "join_dot [k] = k"
| "join_dot (k # ks) = k @ ''.'' @ join_dot ks"

definition cycleReplacer_default :: "ctx \<Rightarrow> string \<Rightarrow> jv \<Rightarrow> jv" where
  \<comment> \<open>lines 38-43; \<^verbatim>\<open>stack[0]\<close> of an empty array is \<^verbatim>\<open>undefined\<close>\<close>
  "cycleReplacer_default c key v =
     (if (case stack c of [] \<Rightarrow> v = JUndefined | s0 # _ \<Rightarrow> s0 = v)
      then JStr ''[Circular ~]''
      else JStr (''[Circular ~.'' @ join_dot (slice0 (keys c) (indexOf (stack c) v)) @ '']''))"

definition stringifySafeSerializer ::
    "(jv \<Rightarrow> string \<Rightarrow> jv \<Rightarrow> jv) option \<Rightarrow> (jv \<Rightarrow> string \<Rightarrow> jv \<Rightarrow> jv) option
      \<Rightarrow> ctx \<Rightarrow> jv \<Rightarrow> string \<Rightarrow> jv \<Rightarrow> ctx \<times> jv" where
  \<comment> \<open>lines 46-59, for the state \<open>c\<close>, \<^verbatim>\<open>this\<close>, \<^verbatim>\<open>key\<close> and \<^verbatim>\<open>value\<close>\<close>
  "stringifySafeSerializer replacer cycleReplacer c this key v =
     (let (c1, v1) =
        (if length (stack c) > 0 then
           (let thisPos = indexOf (stack c) this;
                c1 = (if thisPos \<noteq> - 1
                      then \<lparr>stack = take (nat (thisPos + 1)) (stack c),
                            keys = take (nat thisPos) (keys c) @ [key]\<rparr>
                      else \<lparr>stack = stack c @ [this], keys = keys c @ [key]\<rparr>)
            in if indexOf (stack c1) v \<noteq> - 1
               then (c1, case cycleReplacer of
                           None \<Rightarrow> cycleReplacer_default c1 key v
                         | Some f \<Rightarrow> f this key v)
               else (c1, v))
         else (c\<lparr>stack := stack c @ [v]\<rparr>, v))
      in (c1, case replacer of None \<Rightarrow> v1 | Some f \<Rightarrow> f this key v1))"

definition stringifySafe_document ::
    "heap \<Rightarrow> hook \<Rightarrow> jv \<Rightarrow> (jv \<Rightarrow> string \<Rightarrow> jv \<Rightarrow> jv) option
      \<Rightarrow> (jv \<Rightarrow> string \<Rightarrow> jv \<Rightarrow> jv) option \<Rightarrow> ser_error + json option" where
  "stringifySafe_document H toJSON obj replacer cycleReplacer =
     JSON_document H toJSON (stringifySafeSerializer replacer cycleReplacer)
       \<lparr>stack = [], keys = []\<rparr> obj"

definition stringifySafe ::
    "heap \<Rightarrow> hook \<Rightarrow> jv \<Rightarrow> (jv \<Rightarrow> string \<Rightarrow> jv \<Rightarrow> jv) option
      \<Rightarrow> (jv \<Rightarrow> string \<Rightarrow> jv \<Rightarrow> jv) option \<Rightarrow> ser_error + string option" where
  \<comment> \<open>lines 62-64; the \<^verbatim>\<open>spaces\<close> argument only adds white space to the text and is left out\<close>
  "stringifySafe H toJSON obj replacer cycleReplacer =
     JSON_stringify H toJSON (stringifySafeSerializer replacer cycleReplacer)
       \<lparr>stack = [], keys = []\<rparr> obj"

subsection \<open>The serializer as the specification words it\<close>

text \<open>
  The specification's Safe Serializer keeps an explicit ancestor stack and a parallel key
  path during the traversal: a value that is on the ancestor stack is replaced by a marker
  that encodes the dotted key path from the root to that ancestor, and the root itself by the
  bare marker. \<open>walk\<close> is that traversal with the context passed down explicitly: \<open>anc\<close> are
  the ancestors of \<open>v\<close>, root first, and \<open>path\<close> the keys that lead from the root to \<open>v\<close>.
  It is compared with the closure of the source in the section on the safe serializer below.
\<close>

definition circular_marker :: "string list \<Rightarrow> string" where
  "circular_marker path =
     (if path = [] then ''[Circular ~]'' else ''[Circular ~.'' @ join_dot path @ '']'')"

function walk :: "heap \<Rightarrow> jv list \<Rightarrow> string list \<Rightarrow> jv \<Rightarrow> json option" where
  "walk H anc path v =
     (if v \<in> set anc then Some (JsStr (circular_marker (take (nat (indexOf anc v)) path)))
      else
        (case v of
           JUndefined \<Rightarrow> None
         | JNull \<Rightarrow> Some JsNull
         | JBool b \<Rightarrow> Some (JsBool b)
         | JNum n \<Rightarrow> Some (JsNum n)
         | JStr t \<Rightarrow> Some (JsStr t)
         | JFun _ \<Rightarrow> None
         | JProxy \<Rightarrow> None
         | JPromise _ \<Rightarrow> Some (JsObj [])
         | JRef a \<Rightarrow>
             (case map_of H a of
                None \<Rightarrow> None
              | Some cell \<Rightarrow>
                  Some (assemble cell
                    (map (\<lambda>(k, x). (k, walk H (anc @ [v]) (path @ [k]) x)) (members cell))))))"
  by pat_completeness auto
termination
proof (relation "measure (\<lambda>(H, anc, path, v). unvisited H anc)", goal_cases)
  case 1
  show ?case by simp
next
  case (2 H anc path v x9 x2 x xa y)
  have "x9 \<in> fst ` set H"
    using 2 by (metis map_of_SomeD fst_conv image_eqI)
  moreover have "JRef x9 \<notin> set anc" using 2 by simp
  ultimately have "fst ` set H - {a. JRef a \<in> set (anc @ [JRef x9])}
      \<subset> fst ` set H - {a. JRef a \<in> set anc}"
    by auto
  then have "unvisited H (anc @ [JRef x9]) < unvisited H anc"
    unfolding unvisited_def by (intro psubset_card_mono) auto
  then show ?case using 2 by simp
qed

declare walk.simps [simp del]

definition val_ok :: "heap \<Rightarrow> jv \<Rightarrow> bool" where
  \<comment> \<open>a reference has a cell, a number is a safe integer (\<^verbatim>\<open>Number.isSafeInteger\<close>, below
      \<open>2^53\<close> in magnitude), and the value has no callable \<^verbatim>\<open>toJSON\<close> member\<close>
  "val_ok H x =
     ((case x of JRef b \<Rightarrow> map_of H b \<noteq> None | JNum n \<Rightarrow> \<bar>n\<bar> < 9007199254740992 | _ \<Rightarrow> True)
      \<and> \<not> has_toJSON H x)"

definition heap_ok :: "heap \<Rightarrow> bool" where
  "heap_ok H = (\<forall>(a, cell) \<in> set H. \<forall>(k, x) \<in> set (members cell). val_ok H x)"

definition ctx_pre :: "jv list \<Rightarrow> string list \<Rightarrow> ctx \<Rightarrow> bool" where
  \<comment> \<open>The closure's state when the library asks for a member of the object \<open>last J\<close>, whose
      ancestors (itself included) are \<open>J\<close> and which sits at key path \<open>P\<close>: either the object
      is entered for the first time, or the arrays still begin with \<open>J\<close> and \<open>P\<close>.\<close>
  "ctx_pre J P c =
     ((stack c = butlast J \<and> butlast J \<noteq> [] \<and> keys c = P)
      \<or> (take (length J) (stack c) = J \<and> take (length P) (keys c) = P))"

section \<open>The environment of the wrapper\<close>

text \<open>
  A fixture file holds one JSON object. The wrapper only ever writes and reads scalar
  members (strings, booleans and, through \<^verbatim>\<open>returnValue && ...\<close>, the falsy values), so a
  file's content is modelled as the parsed object: a list of members with scalar values,
  each member listed once. The text between \<^verbatim>\<open>fs.writeFileSync\<close> and \<^verbatim>\<open>JSON.parse\<close> (two-space
  indentation, the final \<^verbatim>\<open>os.EOL\<close>) is not modelled. A path of the file system is absent
  (\<^verbatim>\<open>readFileSync\<close> throws an error whose \<^verbatim>\<open>code\<close> is \<^verbatim>\<open>ENOENT\<close>), unreadable (it throws an
  error with the given code), a fixture, or text that \<^verbatim>\<open>JSON.parse\<close> rejects. Writes
  succeed: the directory is taken to exist.
\<close>

datatype fval = FNull | FBool bool | FNum int | FStr string

type_synonym doc = "(string \<times> fval) list"

datatype fsentry = Absent | Unreadable string | Fixture doc | NotJSON

type_synonym fs = "string \<Rightarrow> fsentry"

text \<open>
  The library functions the wrapper calls and the repository does not define are
  parameters: the hexadecimal SHA-256 digest, \<^verbatim>\<open>path.join\<close>, \<^verbatim>\<open>JSON.parse\<close> on a text (\<open>None\<close>
  is a SyntaxError) and the reading of an argument array by \<^verbatim>\<open>Function.prototype.apply\<close>
  (\<open>None\<close> is a TypeError).
\<close>

record lib =
  sha256_hex :: "string \<Rightarrow> string"
  path_join :: "string \<Rightarrow> string \<Rightarrow> string"
  parse_text :: "string \<Rightarrow> jv option"
  arg_list :: "jv \<Rightarrow> jv list option"

text \<open>
  What a call of the wrapper does, as its caller can observe it: how the call itself ends
  (\<open>ReturnedFuture\<close> is a promise the wrapper made), the \<open>actions\<close> it performed in order,
  the paths it gave to \<^verbatim>\<open>fs.readFileSync\<close> (\<open>reads\<close>), and the closures it handed to
  \<^verbatim>\<open>process.nextTick\<close> (\<open>deferred\<close>), which run on a later turn (\<open>run_task\<close>).
  \<open>FutureResolved\<close> and \<open>FutureRejected\<close> are the settlement of a promise the wrapper made:
  in replay the one the call returned, in capture the one its handler returns.
\<close>

datatype thrown = Error string | SysError string | SyntaxError | TypeError | Raised jv

datatype outcome = Returned jv | Threw thrown | ReturnedFuture

datatype action =
    CalledOriginal jv "jv list"
  | Wrote string doc
  | CalledBack jv "jv list"
  | FutureResolved jv
  | FutureRejected jv
  | FutureRejectedError string

datatype task =
    DeliverCallback jv jv "fval option"
  | SettleFuture jv "fval option" "fval option"

text \<open>
  The wrapped method is user code. Of a call only this matters to the wrapper: the argument
  lists with which it invokes the callback it was given before it returns (\<open>during\<close>),
  whether it returns or throws, and, when it returns an object of its own with a \<^verbatim>\<open>then\<close>
  method, how \<^verbatim>\<open>returnValue.then(...).catch(...)\<close> ends on that object (\<open>chained\<close>: the value
  returned, or what is thrown, a TypeError when \<^verbatim>\<open>then\<close> returns nothing to call \<^verbatim>\<open>catch\<close>
  on). What happens after the wrapper has returned arrives as events: the callback is
  invoked, or a handler attached to the returned promise or object is called with one
  argument.
\<close>

record behaviour =
  during :: "jv list list"
  completion :: completion
  chained :: outcome

datatype event = CallbackFired "jv list" | PromiseResolved jv | PromiseRejected jv

text \<open>
  The resolved options (lines 68-80). A serializer is a total function to strings, as
  the default is on arrays; the return-value serializer may yield \<^verbatim>\<open>undefined\<close> (\<open>None\<close>), as
  the default does for \<^verbatim>\<open>undefined\<close> and for functions. The \<^verbatim>\<open>sinon\<close> option only changes
  how the wrapper is installed on the object, which is not modelled.
\<close>

record options =
  dir :: string
  prefix :: string
  mode :: "string option"
  callbackSwap :: "jv \<Rightarrow> jv list \<Rightarrow> jv \<Rightarrow> jv list \<times> jv"
  argumentSerializer :: "jv list \<Rightarrow> string"
  responseSerializer :: "jv list \<Rightarrow> string"
  returnValueSerializer :: "jv \<Rightarrow> string option"

type_synonym jsobj = "(string \<times> fval option) list"

text \<open>
  The state of one call: besides what the caller observes, the object \<^verbatim>\<open>wrappedCallData\<close>
  (a member assigned \<^verbatim>\<open>undefined\<close> holds \<open>None\<close>), the variable \<^verbatim>\<open>origCallback\<close>, whether the
  recording callback was handed out (\<open>proxy\<close>), whether the \<^verbatim>\<open>then\<close>/\<^verbatim>\<open>catch\<close> handlers
  (lines 126-143) are attached and can still run (\<open>handlers\<close>), and whether they are attached
  to an object of the user's that has a \<^verbatim>\<open>then\<close> method, not to a promise (\<open>thenable\<close>): a
  promise runs one of the two handlers, once; such an object can call them as it likes.
\<close>

record run =
  result :: outcome
  actions :: "action list"
  deferred :: "task list"
  reads :: "string list"
  files :: fs
  wrappedCallData :: jsobj
  origCallback :: jv
  proxy :: bool
  handlers :: bool
  thenable :: bool

section \<open>The wrapper (lines 8-23 and 83-180)\<close>

definition HASH_LENGTH :: nat where
  "HASH_LENGTH = 12"

definition NICE_ERR_HEADER :: string where
  "NICE_ERR_HEADER = ''This test (in replay mode) could not read the expected mock data from''"

definition NICE_ERR_SERIALIZATION_DESCRIPTOR :: string where
  "NICE_ERR_SERIALIZATION_DESCRIPTOR = ''Serialized arguments''"

definition NICE_ERR_FOOTER :: string where
  "NICE_ERR_FOOTER = ''If you have not already, try running this test in capture mode to generate new test fixtures.  If you continue to see this error, a likely cause is differing (frequently changing) argument for the wrapped asynchronous task.  This can be mitigated by defining an argumentSerializer option that ignores the frequently-changing argument.''"

definition NICE_ERR_PROMISE :: string where
  "NICE_ERR_PROMISE = ''easy-fix retained no resolution/rejection arguments for this wrapped promise''"

definition getNiceError :: "string \<Rightarrow> string \<Rightarrow> string" where
  \<comment> \<open>lines 21-23; \<open>CHR 0x22\<close> is the double quote, \<open>CHR 0x0A\<close> the line feed\<close>
  "getNiceError file details =
     NICE_ERR_HEADER @ '' '' @ [CHR 0x22] @ file @ [CHR 0x22] @ [CHR 0x0A, CHR 0x0A]
       @ NICE_ERR_SERIALIZATION_DESCRIPTOR @ '':'' @ [CHR 0x0A] @ details @ [CHR 0x0A, CHR 0x0A]
       @ NICE_ERR_FOOTER"

fun assign :: "string \<Rightarrow> 'v \<Rightarrow> (string \<times> 'v) list \<Rightarrow> (string \<times> 'v) list" where
  \<comment> \<open>\<^verbatim>\<open>obj[k] = v\<close>: an existing member keeps its place, a new one goes last\<close>
  "assign k v [] = [(k, v)]"
| "assign k v ((k', v') # rest) =
     (if k' = k then (k, v) # rest else (k', v') # assign k v rest)"

definition to_doc :: "jsobj \<Rightarrow> doc" where
  \<comment> \<open>what JSON.stringify writes of the object: members holding \<^verbatim>\<open>undefined\<close> are left out\<close>
  "to_doc obj = List.map_filter (\<lambda>(k, v). map_option (Pair k) v) obj"

definition truthy_f :: "fval option \<Rightarrow> bool" where
  "truthy_f x =
     (case x of None \<Rightarrow> False | Some FNull \<Rightarrow> False | Some (FBool b) \<Rightarrow> b
      | Some (FNum n) \<Rightarrow> n \<noteq> 0 | Some (FStr s) \<Rightarrow> s \<noteq> [])"

definition to_text :: "fval \<Rightarrow> string" where
  \<comment> \<open>ToString, which \<^verbatim>\<open>JSON.parse\<close> applies to its argument\<close>
  "to_text x =
     (case x of FNull \<Rightarrow> ''null'' | FBool b \<Rightarrow> (if b then ''true'' else ''false'')
      | FNum n \<Rightarrow> show_int n | FStr s \<Rightarrow> s)"

definition JSON_parse :: "lib \<Rightarrow> fval option \<Rightarrow> thrown + jv" where
  \<comment> \<open>\<^verbatim>\<open>JSON.parse(x)\<close> for a member \<open>x\<close> of the fixture; an absent member is \<^verbatim>\<open>undefined\<close>, whose
      string \<^verbatim>\<open>"undefined"\<close> is not JSON\<close>
  "JSON_parse L x =
     (case x of
        None \<Rightarrow> Inl SyntaxError
      | Some f \<Rightarrow> (case parse_text L (to_text f) of None \<Rightarrow> Inl SyntaxError | Some v \<Rightarrow> Inr v))"

definition first_arg :: "jv list \<Rightarrow> jv" where
  "first_arg xs = (case xs of [] \<Rightarrow> JUndefined | x # _ \<Rightarrow> x)"

definition has_then :: "heap \<Rightarrow> jv \<Rightarrow> bool" where
  \<comment> \<open>\<^verbatim>\<open>!!returnValue.then\<close> for a truthy \<^verbatim>\<open>returnValue\<close>\<close>
  "has_then H v =
     (case v of
        JPromise _ \<Rightarrow> True
      | JRef a \<Rightarrow>
          (case map_of H a of
             Some (HObj props) \<Rightarrow> (case map_of props ''then'' of Some t \<Rightarrow> truthy t | None \<Rightarrow> False)
           | _ \<Rightarrow> False)
      | _ \<Rightarrow> False)"

definition then_callable :: "heap \<Rightarrow> jv \<Rightarrow> bool" where
  \<comment> \<open>whether \<^verbatim>\<open>returnValue.then(...)\<close> can be called\<close>
  "then_callable H v =
     (case v of
        JPromise _ \<Rightarrow> True
      | JRef a \<Rightarrow>
          (case map_of H a of
             Some (HObj props) \<Rightarrow>
               (case map_of props ''then'' of Some t \<Rightarrow> is_callable t | None \<Rightarrow> False)
           | _ \<Rightarrow> False)
      | _ \<Rightarrow> False)"

definition returnedPromise_of :: "heap \<Rightarrow> jv \<Rightarrow> fval option" where
  \<comment> \<open>line 122, \<^verbatim>\<open>returnValue && !!returnValue.then\<close>: a falsy \<^verbatim>\<open>returnValue\<close> is the result itself\<close>
  "returnedPromise_of H returnValue =
     (if truthy returnValue then Some (FBool (has_then H returnValue))
      else (case returnValue of
              JNull \<Rightarrow> Some FNull | JBool b \<Rightarrow> Some (FBool b) | JNum n \<Rightarrow> Some (FNum n)
            | JStr s \<Rightarrow> Some (FStr s) | _ \<Rightarrow> None))"

definition fixture_path :: "lib \<Rightarrow> options \<Rightarrow> string \<Rightarrow> string" where
  \<comment> \<open>lines 93-99\<close>
  "fixture_path L opts argStr =
     path_join L (dir opts)
       (prefix opts @ ''-'' @ take HASH_LENGTH (sha256_hex L argStr) @ ''.json'')"

definition writeWrappedCallData :: "string \<Rightarrow> run \<Rightarrow> run" where
  \<comment> \<open>lines 103-108\<close>
  "writeWrappedCallData filepath r =
     r\<lparr>files := (files r)(filepath := Fixture (to_doc (wrappedCallData r))),
       actions := actions r @ [Wrote filepath (to_doc (wrappedCallData r))]\<rparr>"

definition proxy_call :: "options \<Rightarrow> string \<Rightarrow> run \<Rightarrow> jv list \<Rightarrow> run" where
  \<comment> \<open>lines 112-117: the recording callback is invoked with \<open>callbackArgs\<close>\<close>
  "proxy_call opts filepath r callbackArgs =
     (let r1 = r\<lparr>wrappedCallData :=
                  assign ''callbackArgs'' (Some (FStr (responseSerializer opts callbackArgs)))
                    (wrappedCallData r)\<rparr>;
          r2 = writeWrappedCallData filepath r1
      in r2\<lparr>actions := actions r2 @ [CalledBack (origCallback r2) callbackArgs]\<rparr>)"

definition capture ::
    "heap \<Rightarrow> options \<Rightarrow> string \<Rightarrow> (jv \<Rightarrow> jv list \<Rightarrow> behaviour) \<Rightarrow> jv \<Rightarrow> jv list \<Rightarrow> run \<Rightarrow> run" where
  \<comment> \<open>lines 120-148, up to the \<^verbatim>\<open>return\<close>\<close>
  "capture H opts filepath originalFn self args r0 =
     (let b = originalFn self args;
          r1 = r0\<lparr>actions := actions r0 @ [CalledOriginal self args]\<rparr>;
          r2 = (if proxy r1 then foldl (proxy_call opts filepath) r1 (during b) else r1)
      in case completion b of
           Throw e \<Rightarrow> r2\<lparr>result := Threw (Raised e)\<rparr>
         | Return returnValue \<Rightarrow>
             (let rp = returnedPromise_of H returnValue;
                  r3 = r2\<lparr>wrappedCallData := assign ''returnedPromise'' rp (wrappedCallData r2)\<rparr>
              in if truthy_f rp then
                   (case returnValue of
                      JPromise _ \<Rightarrow> r3\<lparr>result := ReturnedFuture, handlers := True\<rparr>
                    | _ \<Rightarrow>
                        (if then_callable H returnValue
                         then r3\<lparr>result := chained b, handlers := True, thenable := True\<rparr>
                         else r3\<lparr>result := Threw TypeError\<rparr>))
                 else
                   r3\<lparr>wrappedCallData :=
                        assign ''returnValue'' (map_option FStr (returnValueSerializer opts returnValue))
                          (wrappedCallData r3),
                      result := Returned returnValue\<rparr>))"

definition settle :: "options \<Rightarrow> string \<Rightarrow> run \<Rightarrow> event \<Rightarrow> run" where
  \<comment> \<open>after the capturing call has returned: the recording callback runs (lines 112-117), or
      the \<^verbatim>\<open>then\<close> handler (lines 126-134) or the \<^verbatim>\<open>catch\<close> handler (lines 135-143) does; a
      promise runs no handler after that\<close>
  "settle opts filepath r ev =
     (case ev of
        CallbackFired callbackArgs \<Rightarrow>
          (if proxy r then proxy_call opts filepath r callbackArgs else r)
      | PromiseResolved v \<Rightarrow>
          (if handlers r then
             (let r1 = r\<lparr>wrappedCallData :=
                          assign ''promiseResolutionArgs'' (Some (FStr (responseSerializer opts [v])))
                            (wrappedCallData r),
                        handlers := thenable r\<rparr>;
                  r2 = writeWrappedCallData filepath r1
              in r2\<lparr>actions := actions r2 @ [FutureResolved v]\<rparr>)
           else r)
      | PromiseRejected e \<Rightarrow>
          (if handlers r then
             (let r1 = r\<lparr>wrappedCallData :=
                          assign ''promiseRejectionArgs'' (Some (FStr (responseSerializer opts [e])))
                            (wrappedCallData r),
                        handlers := thenable r\<rparr>;
                  r2 = writeWrappedCallData filepath r1
              in r2\<lparr>actions := actions r2 @ [FutureRejected e]\<rparr>)
           else r))"

definition replay :: "lib \<Rightarrow> string \<Rightarrow> string \<Rightarrow> jv \<Rightarrow> run \<Rightarrow> run" where
  \<comment> \<open>lines 150-179\<close>
  "replay L filepath argStr self r =
     (let r0 = r\<lparr>reads := reads r @ [filepath]\<rparr>
      in case files r0 filepath of
        Absent \<Rightarrow> r0\<lparr>result := Threw (Error (getNiceError filepath argStr))\<rparr>
      | Unreadable code \<Rightarrow>
          (if code = ''ENOENT'' then r0\<lparr>result := Threw (Error (getNiceError filepath argStr))\<rparr>
           else r0\<lparr>result := Threw (SysError code)\<rparr>)
      | NotJSON \<Rightarrow> r0\<lparr>result := Threw SyntaxError\<rparr>
      | Fixture cannedJson \<Rightarrow>
          (let r1 = (if truthy_f (map_of cannedJson ''callbackArgs'')
                     then r0\<lparr>deferred := deferred r0 @
                            [DeliverCallback (origCallback r0) self (map_of cannedJson ''callbackArgs'')]\<rparr>
                     else r0)
           in if truthy_f (map_of cannedJson ''returnedPromise'') then
                r1\<lparr>result := ReturnedFuture,
                   deferred := deferred r1 @
                     [SettleFuture self (map_of cannedJson ''promiseResolutionArgs'')
                        (map_of cannedJson ''promiseRejectionArgs'')]\<rparr>
              else
                (case JSON_parse L (map_of cannedJson ''returnValue'') of
                   Inl e \<Rightarrow> r1\<lparr>result := Threw e\<rparr>
                 | Inr v \<Rightarrow> r1\<lparr>result := Returned v\<rparr>)))"

definition run_task :: "lib \<Rightarrow> task \<Rightarrow> thrown + action" where
  \<comment> \<open>the bodies of the two closures given to \<^verbatim>\<open>process.nextTick\<close> (lines 162-164, 168-176)\<close>
  "run_task L t =
     (case t of
        DeliverCallback cb self x \<Rightarrow>
          (if cb = JUndefined \<or> cb = JNull then Inl TypeError
           else
             (case JSON_parse L x of
                Inl e \<Rightarrow> Inl e
              | Inr v \<Rightarrow>
                  (if \<not> is_callable cb then Inl TypeError
                   else (case arg_list L v of
                           None \<Rightarrow> Inl TypeError
                         | Some xs \<Rightarrow> Inr (CalledBack cb xs)))))
      | SettleFuture self res rej \<Rightarrow>
          (if truthy_f res then
             (case JSON_parse L res of
                Inl e \<Rightarrow> Inl e
              | Inr v \<Rightarrow> (case arg_list L v of
                           None \<Rightarrow> Inl TypeError
                         | Some xs \<Rightarrow> Inr (FutureResolved (first_arg xs))))
           else if truthy_f rej then
             (case JSON_parse L rej of
                Inl e \<Rightarrow> Inl e
              | Inr v \<Rightarrow> (case arg_list L v of
                           None \<Rightarrow> Inl TypeError
                         | Some xs \<Rightarrow> Inr (FutureRejected (first_arg xs))))
           else Inr (FutureRejectedError NICE_ERR_PROMISE)))"

definition outcome_of :: "completion \<Rightarrow> outcome" where
  "outcome_of c = (case c of Return v \<Rightarrow> Returned v | Throw e \<Rightarrow> Threw (Raised e))"

definition wrapper ::
    "heap \<Rightarrow> lib \<Rightarrow> options \<Rightarrow> (jv \<Rightarrow> jv list \<Rightarrow> behaviour) \<Rightarrow> fs \<Rightarrow> jv \<Rightarrow> jv list \<Rightarrow> run" where
  \<comment> \<open>lines 83-180, for \<^verbatim>\<open>this\<close> = \<open>self\<close> and \<^verbatim>\<open>arguments\<close> = \<open>callingArgs\<close>\<close>
  "wrapper H L opts originalFn fs self callingArgs =
     (if mode opts = Some ''live'' then
        \<lparr>result = outcome_of (completion (originalFn self callingArgs)),
         actions = [CalledOriginal self callingArgs], deferred = [], reads = [], files = fs,
         wrappedCallData = [], origCallback = JUndefined, proxy = False, handlers = False, thenable = False\<rparr>
      else
        (let argStr = argumentSerializer opts callingArgs;
             filepath = fixture_path L opts argStr;
             start = \<lparr>result = Returned JUndefined, actions = [], deferred = [], reads = [], files = fs,
                      wrappedCallData = [(''callArgs'', Some (FStr argStr))],
                      origCallback = JUndefined, proxy = False, handlers = False, thenable = False\<rparr>;
             swapped = (if callingArgs \<noteq> [] \<and> is_callable (last callingArgs)
                        then Some (callbackSwap opts self callingArgs JProxy) else None);
             args1 = (case swapped of Some (args', cb) \<Rightarrow> args' | None \<Rightarrow> callingArgs);
             r0 = (case swapped of
                     Some (args', cb) \<Rightarrow> start\<lparr>origCallback := cb, proxy := True\<rparr>
                   | None \<Rightarrow> start)
         in if mode opts = Some ''capture''
            then capture H opts filepath originalFn self args1 r0
            else replay L filepath argStr self r0))"

definition after_events :: "lib \<Rightarrow> options \<Rightarrow> jv list \<Rightarrow> run \<Rightarrow> event list \<Rightarrow> run" where
  \<comment> \<open>a capturing call \<open>r\<close> of the wrapper with \<open>callingArgs\<close>, followed by the events \<open>evs\<close>\<close>
  "after_events L opts callingArgs r evs =
     foldl (settle opts (fixture_path L opts (argumentSerializer opts callingArgs))) r evs"

section \<open>Wrapping a method (lines 66-81)\<close>

text \<open>
  The third argument of \<^verbatim>\<open>wrapAsyncMethod\<close> is a string (the directory alone), an object
  whose members may be absent, or missing, in which case reading \<^verbatim>\<open>optionsArg.dir\<close> throws.
  \<^verbatim>\<open>x || y\<close> takes \<^verbatim>\<open>y\<close> for an absent and for an empty string. \<open>TEST_MODE\<close> is the
  environment variable. The default serializers are \<^verbatim>\<open>stringifySafe\<close>; the array of
  arguments it is given is a new object. On a heap that is \<open>heap_ok\<close> the serializer
  returns text for every array, so the last branch of \<open>stringifySafe_args\<close> is not reached
  there. The options hold the serializers as total functions: where \<^verbatim>\<open>stringifySafe\<close> throws
  (a \<^verbatim>\<open>toJSON\<close> hook does), the source lets the error leave the wrapper, and
  \<open>stringifySafe_args\<close> stands for it with the empty text.
\<close>

record given =
  dir_given :: "string option"
  prefix_given :: "string option"
  mode_given :: "string option"
  callbackSwap_given :: "(jv \<Rightarrow> jv list \<Rightarrow> jv \<Rightarrow> jv list \<times> jv) option"
  argumentSerializer_given :: "(jv list \<Rightarrow> string) option"
  responseSerializer_given :: "(jv list \<Rightarrow> string) option"
  returnValueSerializer_given :: "(jv \<Rightarrow> string option) option"

datatype optionsArg = Shorthand string | Object given | NoOptions

definition modes :: "string \<Rightarrow> string option" where
  \<comment> \<open>lines 8-12: \<^verbatim>\<open>modes[m]\<close>\<close>
  "modes m = (if m = ''live'' \<or> m = ''capture'' \<or> m = ''replay'' then Some m else None)"

definition or_else :: "string option \<Rightarrow> string \<Rightarrow> string" where
  "or_else x d = (case x of Some s \<Rightarrow> (if s \<noteq> [] then s else d) | None \<Rightarrow> d)"

definition default_callbackSwap :: "jv \<Rightarrow> jv list \<Rightarrow> jv \<Rightarrow> jv list \<times> jv" where
  \<comment> \<open>lines 73-77; on an empty array \<^verbatim>\<open>args[-1]\<close> is \<^verbatim>\<open>undefined\<close> and the assignment adds no element\<close>
  "default_callbackSwap self args newCallback =
     (if args = [] then (args, JUndefined)
      else (args[length args - 1 := newCallback], args ! (length args - 1)))"

definition fresh :: "heap \<Rightarrow> addr" where
  "fresh H = Suc (fold max (map fst H) 0)"

definition stringifySafe_args :: "heap \<Rightarrow> hook \<Rightarrow> jv list \<Rightarrow> string" where
  "stringifySafe_args H toJSON args =
     (case stringifySafe ((fresh H, HArr args) # H) toJSON (JRef (fresh H)) None None of
        Inr (Some s) \<Rightarrow> s | _ \<Rightarrow> [])"

definition stringifySafe_value :: "heap \<Rightarrow> hook \<Rightarrow> jv \<Rightarrow> string option" where
  "stringifySafe_value H toJSON v =
     (case stringifySafe H toJSON v None None of Inr r \<Rightarrow> r | Inl _ \<Rightarrow> None)"

definition wrapAsyncMethod_options ::
    "heap \<Rightarrow> hook \<Rightarrow> string option \<Rightarrow> string \<Rightarrow> optionsArg \<Rightarrow> thrown + options" where
  "wrapAsyncMethod_options H toJSON TEST_MODE method optionsArg =
     (case optionsArg of
        NoOptions \<Rightarrow> Inl TypeError
      | Shorthand d \<Rightarrow>
          Inr \<lparr>dir = d, prefix = method, mode = modes (or_else TEST_MODE ''replay''),
               callbackSwap = default_callbackSwap,
               argumentSerializer = stringifySafe_args H toJSON,
               responseSerializer = stringifySafe_args H toJSON,
               returnValueSerializer = stringifySafe_value H toJSON\<rparr>
      | Object g \<Rightarrow>
          Inr \<lparr>dir = or_else (dir_given g) ''test/data'',
               prefix = or_else (prefix_given g) method,
               mode = (case mode_given g of
                         Some m \<Rightarrow> (if m \<noteq> [] then Some m else modes (or_else TEST_MODE ''replay''))
                       | None \<Rightarrow> modes (or_else TEST_MODE ''replay'')),
               callbackSwap = (case callbackSwap_given g of Some f \<Rightarrow> f | None \<Rightarrow> default_callbackSwap),
               argumentSerializer =
                 (case argumentSerializer_given g of Some f \<Rightarrow> f | None \<Rightarrow> stringifySafe_args H toJSON),
               responseSerializer =
                 (case responseSerializer_given g of Some f \<Rightarrow> f | None \<Rightarrow> stringifySafe_args H toJSON),
               returnValueSerializer =
                 (case returnValueSerializer_given g of Some f \<Rightarrow> f | None \<Rightarrow> stringifySafe_value H toJSON)\<rparr>)"

definition wrapAsyncMethod ::
    "heap \<Rightarrow> hook \<Rightarrow> lib \<Rightarrow> string option \<Rightarrow> (jv \<Rightarrow> jv list \<Rightarrow> behaviour) \<Rightarrow> string
      \<Rightarrow> optionsArg \<Rightarrow> thrown + (fs \<Rightarrow> jv \<Rightarrow> jv list \<Rightarrow> run)" where
  \<comment> \<open>the wrapper that replaces \<^verbatim>\<open>obj[method]\<close>, whose former value is \<open>originalFn\<close>\<close>
  "wrapAsyncMethod H toJSON L TEST_MODE originalFn method optionsArg =
     (case wrapAsyncMethod_options H toJSON TEST_MODE method optionsArg of
        Inl e \<Rightarrow> Inl e
      | Inr opts \<Rightarrow> Inr (wrapper H L opts originalFn))"

section \<open>Concrete inputs\<close>

text \<open>
  The inputs of the examples below. \<open>sample_lib\<close> gives the library functions on the
  strings the examples use: the two digests are those of SHA-256, \<^verbatim>\<open>path.join\<close> of a
  normalized directory and a file name puts a slash between them, and \<open>JSON.parse\<close> of
  \<^verbatim>\<open>[null,7]\<close> is the array at address 0 of \<open>sample_heap\<close>.
\<close>

definition sample_heap :: heap where
  "sample_heap = [(0, HArr [JNull, JNum 7])]"

definition no_toJSON :: hook where
  \<comment> \<open>for heaps without a \<^verbatim>\<open>toJSON\<close> member, where no hook is called\<close>
  "no_toJSON f this key = Return this"

definition sample_lib :: lib where
  "sample_lib =
     \<lparr>sha256_hex = (\<lambda>s.
        if s = ''[1]'' then ''080a9ed428559ef602668b4c00f114f1a11c3f6b02a435f0bdc154578e4d7f22''
        else if s = ''[42,null]'' then ''11e6a435235aedeea296bc4654e6df0029e5de83cb948a2452b58d7d27eb99ae''
        else replicate 64 (CHR ''0'')),
      path_join = (\<lambda>d f. d @ ''/'' @ f),
      parse_text = (\<lambda>s. if s = ''[null,7]'' then Some (JRef 0)
                          else if s = ''7'' then Some (JNum 7) else None),
      arg_list = (\<lambda>v. if v = JRef 0 then Some [JNull, JNum 7] else None)\<rparr>"

definition sample_options :: "string \<Rightarrow> string \<Rightarrow> options" where
  \<comment> \<open>the options of \<^verbatim>\<open>wrapAsyncMethod(obj, method, {dir: '/tmp/x', mode: m})\<close>\<close>
  "sample_options method m =
     \<lparr>dir = ''/tmp/x'', prefix = method, mode = Some m,
      callbackSwap = default_callbackSwap,
      argumentSerializer = stringifySafe_args sample_heap no_toJSON,
      responseSerializer = stringifySafe_args sample_heap no_toJSON,
      returnValueSerializer = stringifySafe_value sample_heap no_toJSON\<rparr>"

definition no_files :: fs where
  "no_files = (\<lambda>p. Absent)"

definition returns :: "jv \<Rightarrow> jv \<Rightarrow> jv list \<Rightarrow> behaviour" where
  \<comment> \<open>a method that returns \<open>v\<close> without invoking a callback before it returns\<close>
  "returns v self args = \<lparr>during = [], completion = Return v, chained = Returned JUndefined\<rparr>"

definition hooked_heap :: heap where
  \<comment> \<open>\<^verbatim>\<open>[{toJSON: function}]\<close>: an array at address 0 whose element has a \<^verbatim>\<open>toJSON\<close> method\<close>
  "hooked_heap = [(0, HArr [JRef 1]), (1, HObj [(''toJSON'', JFun 0)])]"

definition throwing_toJSON :: hook where
  \<comment> \<open>\<^verbatim>\<open>function () { throw 'boom' }\<close>\<close>
  "throwing_toJSON f this key = Throw (JStr ''boom'')"

definition date_toJSON :: hook where
  \<comment> \<open>a hook that returns a string, as that of a \<^verbatim>\<open>Date\<close> does\<close>
  "date_toJSON f this key = Return (JStr ''2020-01-01T00:00:00.000Z'')"

definition then_heap :: heap where
  \<comment> \<open>\<open>sample_heap\<close> and, at address 1, an object \<^verbatim>\<open>{then: function}\<close>\<close>
  "then_heap = [(0, HArr [JNull, JNum 7]), (1, HObj [(''then'', JFun 1)])]"

definition returns_thenable :: "outcome \<Rightarrow> jv \<Rightarrow> jv list \<Rightarrow> behaviour" where
  \<comment> \<open>a method that returns the object at address 1 of \<open>then_heap\<close>, on which
      \<^verbatim>\<open>returnValue.then(...).catch(...)\<close> ends as \<open>c\<close>\<close>
  "returns_thenable c self args = \<lparr>during = [], completion = Return (JRef 1), chained = c\<rparr>"

definition throws :: "jv \<Rightarrow> jv \<Rightarrow> jv list \<Rightarrow> behaviour" where
  \<comment> \<open>a method that throws \<open>e\<close> without invoking a callback\<close>
  "throws e self args = \<lparr>during = [], completion = Throw e, chained = Returned JUndefined\<rparr>"

definition cyclic_heap :: heap where
  \<comment> \<open>\<^verbatim>\<open>o = {n: 5, f: function, child: {}, list: []}\<close> with \<^verbatim>\<open>o.self = o\<close>, \<^verbatim>\<open>o.child.up = o\<close>,
      \<^verbatim>\<open>o.child.me = o.child\<close> and \<^verbatim>\<open>o.list = [o.child, o.list, undefined]\<close>\<close>
  "cyclic_heap =
     [(0, HObj [(''self'', JRef 0), (''n'', JNum 5), (''f'', JFun 0), (''child'', JRef 1),
                (''list'', JRef 2)]),
      (1, HObj [(''up'', JRef 0), (''me'', JRef 1)]),
      (2, HArr [JRef 1, JRef 2, JUndefined])]"

section \<open>Paths through a value and through its document\<close>

text \<open>
  \<open>descend H v path\<close> follows the keys of \<open>path\<close> from \<open>v\<close> and returns the values it
  visits, \<open>v\<close> first; \<open>json_at doc path\<close> follows the same keys through a JSON document,
  an array's elements being keyed by their indices.
\<close>

definition member_at :: "heap \<Rightarrow> jv \<Rightarrow> string \<Rightarrow> jv option" where
  "member_at H v k =
     (case v of
        JRef a \<Rightarrow> (case map_of H a of Some cell \<Rightarrow> map_of (members cell) k | None \<Rightarrow> None)
      | _ \<Rightarrow> None)"

fun descend :: "heap \<Rightarrow> jv \<Rightarrow> string list \<Rightarrow> jv list option" where
  "descend H v [] = Some [v]"
| "descend H v (k # ks) =
     (case member_at H v k of
        None \<Rightarrow> None
      | Some y \<Rightarrow> map_option (Cons v) (descend H y ks))"

definition json_members :: "json \<Rightarrow> (string \<times> json) list" where
  "json_members j =
     (case j of JsObj ms \<Rightarrow> ms | JsArr xs \<Rightarrow> zip (map show_nat [0..<length xs]) xs | _ \<Rightarrow> [])"

fun json_at :: "json \<Rightarrow> string list \<Rightarrow> json option" where
  "json_at j [] = Some j"
| "json_at j (k # ks) =
     (case map_of (json_members j) k of None \<Rightarrow> None | Some j' \<Rightarrow> json_at j' ks)"

section \<open>What a capturing call maintains\<close>

text \<open>
  \<open>written\<close> lists the documents a run wrote, oldest first. \<open>capture_inv\<close> is what holds of
  a capturing call at every moment: the record keeps \<^verbatim>\<open>callArgs\<close>, its members are among the
  six the source assigns, and every write went to the fixture path with the record of that
  moment.
\<close>

definition fixture_keys :: "string set" where
  "fixture_keys = {''callArgs'', ''callbackArgs'', ''returnedPromise'', ''promiseResolutionArgs'',
                   ''promiseRejectionArgs'', ''returnValue''}"

fun written :: "action list \<Rightarrow> doc list" where
  "written [] = []"
| "written (Wrote p d # rest) = d # written rest"
| "written (a # rest) = written rest"

definition good_write :: "string \<Rightarrow> doc \<Rightarrow> bool" where
  "good_write argStr d =
     (map_of d ''callArgs'' = Some (FStr argStr) \<and> fst ` set d \<subseteq> fixture_keys)"

definition data_ok :: "string \<Rightarrow> jsobj \<Rightarrow> bool" where
  "data_ok argStr data =
     (map_of data ''callArgs'' = Some (Some (FStr argStr)) \<and> fst ` set data \<subseteq> fixture_keys)"

definition capture_inv :: "fs \<Rightarrow> string \<Rightarrow> string \<Rightarrow> run \<Rightarrow> bool" where
  "capture_inv fs0 argStr filepath r =
     (data_ok argStr (wrappedCallData r)
      \<and> (\<forall>p d. Wrote p d \<in> set (actions r) \<longrightarrow> p = filepath \<and> good_write argStr d)
      \<and> files r = (if written (actions r) = [] then fs0
                    else fs0(filepath := Fixture (last (written (actions r))))))"

text \<open>
  The outcome groups of a record. \<open>value_of data k\<close> is \<^verbatim>\<open>data[k]\<close>, \<^verbatim>\<open>undefined\<close> (\<open>None\<close>)
  for an absent member. \<open>user_thenable\<close> is a returned object with a \<^verbatim>\<open>then\<close> method that
  is not a promise. \<open>groups_ok t d\<close> is what holds of every written document \<open>d\<close>, \<open>t\<close>
  telling whether the handlers are attached to such an object; \<open>record_ok h t data\<close> is what
  holds of the record in memory, \<open>h\<close> telling whether the handlers can still run, and
  \<open>pre_return\<close> what holds of it until the wrapped method has returned.
\<close>

definition value_of :: "jsobj \<Rightarrow> string \<Rightarrow> fval option" where
  "value_of data k = (case map_of data k of Some v \<Rightarrow> v | None \<Rightarrow> None)"

definition user_thenable :: "heap \<Rightarrow> jv \<Rightarrow> bool" where
  "user_thenable H v = (then_callable H v \<and> (case v of JPromise _ \<Rightarrow> False | _ \<Rightarrow> True))"

definition groups_ok :: "bool \<Rightarrow> doc \<Rightarrow> bool" where
  "groups_ok t d =
     ((''callbackArgs'' \<in> fst ` set d \<or> ''promiseResolutionArgs'' \<in> fst ` set d
         \<or> ''promiseRejectionArgs'' \<in> fst ` set d)
      \<and> (''returnValue'' \<in> fst ` set d \<longrightarrow>
            ''promiseResolutionArgs'' \<notin> fst ` set d \<and> ''promiseRejectionArgs'' \<notin> fst ` set d
            \<and> \<not> truthy_f (map_of d ''returnedPromise''))
      \<and> (''promiseResolutionArgs'' \<in> fst ` set d \<or> ''promiseRejectionArgs'' \<in> fst ` set d \<longrightarrow>
            map_of d ''returnedPromise'' = Some (FBool True))
      \<and> (\<not> t \<longrightarrow>
            \<not> (''promiseResolutionArgs'' \<in> fst ` set d \<and> ''promiseRejectionArgs'' \<in> fst ` set d)))"

definition record_ok :: "bool \<Rightarrow> bool \<Rightarrow> jsobj \<Rightarrow> bool" where
  "record_ok h t data =
     (distinct (map fst data)
      \<and> (value_of data ''returnValue'' \<noteq> None \<longrightarrow>
            value_of data ''promiseResolutionArgs'' = None
            \<and> value_of data ''promiseRejectionArgs'' = None
            \<and> \<not> truthy_f (value_of data ''returnedPromise''))
      \<and> (h \<longrightarrow>
            value_of data ''returnedPromise'' = Some (FBool True)
            \<and> value_of data ''returnValue'' = None)
      \<and> (value_of data ''promiseResolutionArgs'' \<noteq> None
           \<or> value_of data ''promiseRejectionArgs'' \<noteq> None \<longrightarrow>
            value_of data ''returnedPromise'' = Some (FBool True))
      \<and> (\<not> t \<longrightarrow>
            \<not> (value_of data ''promiseResolutionArgs'' \<noteq> None
                \<and> value_of data ''promiseRejectionArgs'' \<noteq> None)
            \<and> (h \<longrightarrow>
                  value_of data ''promiseResolutionArgs'' = None
                  \<and> value_of data ''promiseRejectionArgs'' = None)))"

definition outcome_inv :: "run \<Rightarrow> bool" where
  "outcome_inv r =
     (record_ok (handlers r) (thenable r) (wrappedCallData r)
      \<and> (\<forall>p d. Wrote p d \<in> set (actions r) \<longrightarrow> groups_ok (thenable r) d))"

definition pre_return :: "run \<Rightarrow> bool" where
  "pre_return r =
     (value_of (wrappedCallData r) ''returnedPromise'' = None
      \<and> value_of (wrappedCallData r) ''returnValue'' = None
      \<and> value_of (wrappedCallData r) ''promiseResolutionArgs'' = None
      \<and> value_of (wrappedCallData r) ''promiseRejectionArgs'' = None
      \<and> \<not> handlers r \<and> \<not> thenable r)"

section \<open>The safe serializer on plain data: total, no error, cycles marked\<close>

lemma indexOf_ge: "- 1 \<le> indexOf xs v"
  by (induction xs) (auto simp: Let_def)

lemma indexOf_absent: "indexOf xs v = - 1 \<longleftrightarrow> v \<notin> set xs"
proof (induction xs)
  case Nil
  show ?case by simp
next
  case (Cons a xs)
  have "- 1 \<le> indexOf xs v" by (rule indexOf_ge)
  with Cons show ?case by (auto simp: Let_def)
qed

lemma indexOf_bounds: "v \<in> set xs \<Longrightarrow> 0 \<le> indexOf xs v \<and> nat (indexOf xs v) < length xs"
proof (induction xs)
  case Nil
  then show ?case by simp
next
  case (Cons a xs)
  show ?case
  proof (cases "a = v")
    case True
    then show ?thesis by simp
  next
    case False
    with Cons.prems have "v \<in> set xs" by simp
    with Cons.IH have "0 \<le> indexOf xs v \<and> nat (indexOf xs v) < length xs" by simp
    with False show ?thesis by (auto simp: Let_def)
  qed
qed

lemma indexOf_append: "v \<in> set xs \<Longrightarrow> indexOf (xs @ ys) v = indexOf xs v"
proof (induction xs)
  case Nil
  then show ?case by simp
next
  case (Cons a xs)
  then show ?case by (auto simp: Let_def)
qed

lemma indexOf_snoc_new: "v \<notin> set xs \<Longrightarrow> indexOf (xs @ [v]) v = int (length xs)"
proof (induction xs)
  case Nil
  show ?case by simp
next
  case (Cons a xs)
  then show ?case by (auto simp: Let_def)
qed

lemma indexOf_last: "distinct J \<Longrightarrow> J \<noteq> [] \<Longrightarrow> indexOf J (last J) = int (length J) - 1"
proof -
  assume d: "distinct J" and ne: "J \<noteq> []"
  then have J: "J = butlast J @ [last J]" by simp
  with d have "last J \<notin> set (butlast J)"
    by (metis distinct_append distinct.simps(2) disjoint_iff list.set_intros(1))
  then have "indexOf (butlast J @ [last J]) (last J) = int (length (butlast J))"
    by (rule indexOf_snoc_new)
  with J ne show ?thesis by (simp add: of_nat_diff Suc_leI)
qed

lemma indexOf_zero_hd: "v \<in> set xs \<Longrightarrow> (indexOf xs v = 0) = (hd xs = v)"
proof (cases xs)
  case Nil
  assume "v \<in> set xs" with Nil show ?thesis by simp
next
  case (Cons a ys)
  have "- 1 \<le> indexOf ys v" by (rule indexOf_ge)
  with Cons show ?thesis by (auto simp: Let_def)
qed

lemma indexOf_nth: "distinct xs \<Longrightarrow> i < length xs \<Longrightarrow> indexOf xs (xs ! i) = int i"
proof (induction xs arbitrary: i)
  case Nil
  then show ?case by simp
next
  case (Cons a xs)
  show ?case
  proof (cases i)
    case 0
    then show ?thesis by simp
  next
    case (Suc j)
    with Cons.prems have j: "j < length xs" and d: "distinct xs" and "a \<notin> set xs" by auto
    then have "a \<noteq> xs ! j" by (metis nth_mem)
    moreover have "indexOf xs (xs ! j) = int j" using Cons.IH [OF d j] .
    ultimately show ?thesis using Suc by (simp add: Let_def)
  qed
qed

lemma replacer_step:
  assumes d: "distinct J" and ne: "J \<noteq> []" and len: "length P + 1 = length J"
    and pre: "ctx_pre J P c"
  shows "stringifySafeSerializer None None c (last J) k x =
           (\<lparr>stack = J, keys = P @ [k]\<rparr>,
            if x \<in> set J then JStr (circular_marker (take (nat (indexOf J x)) (P @ [k]))) else x)"
proof -
  have J: "butlast J @ [last J] = J" using ne by simp
  have notin: "last J \<notin> set (butlast J)"
    using d J by (metis distinct_append distinct.simps(2) disjoint_iff list.set_intros(1))
  let ?pos = "indexOf (stack c) (last J)"
  let ?c1 = "(if ?pos \<noteq> - 1
                then \<lparr>stack = take (nat (?pos + 1)) (stack c), keys = take (nat ?pos) (keys c) @ [k]\<rparr>
                else \<lparr>stack = stack c @ [last J], keys = keys c @ [k]\<rparr>)"
  have nonempty: "length (stack c) > 0" and c1: "?c1 = \<lparr>stack = J, keys = P @ [k]\<rparr>"
  proof -
    from pre consider
        (fresh) "stack c = butlast J" "butlast J \<noteq> []" "keys c = P"
      | (seen) "take (length J) (stack c) = J" "take (length P) (keys c) = P"
      unfolding ctx_pre_def by blast
    then have "length (stack c) > 0 \<and> ?c1 = \<lparr>stack = J, keys = P @ [k]\<rparr>"
    proof cases
      case fresh
      have "?pos = - 1" using notin fresh by (simp add: indexOf_absent)
      moreover have "length (stack c) > 0" using fresh by (metis length_greater_0_conv)
      ultimately show ?thesis using fresh(1,3) J by simp
    next
      case seen
      have sc: "stack c = J @ drop (length J) (stack c)"
        using seen(1) by (metis append_take_drop_id)
      have "last J \<in> set J" using ne by simp
      then have "indexOf (J @ drop (length J) (stack c)) (last J) = indexOf J (last J)"
        by (rule indexOf_append)
      then have pos: "?pos = int (length J) - 1"
        using sc indexOf_last [OF d ne] by simp
      have "nat (?pos + 1) = length J" using pos by simp
      moreover have "nat ?pos = length P" using pos len by simp
      moreover have "?pos \<noteq> - 1" using pos ne by (cases J) auto
      moreover have "length (stack c) > 0" using sc ne by (metis append_is_Nil_conv length_greater_0_conv)
      ultimately show ?thesis using seen by simp
    qed
    then show "length (stack c) > 0" and "?c1 = \<lparr>stack = J, keys = P @ [k]\<rparr>" by blast+
  qed
  have mark: "cycleReplacer_default \<lparr>stack = J, keys = P @ [k]\<rparr> k x
                = JStr (circular_marker (take (nat (indexOf J x)) (P @ [k])))" if xin: "x \<in> set J"
  proof (cases "indexOf J x = 0")
    case True
    then have "hd J = x" using indexOf_zero_hd [OF xin] by simp
    then show ?thesis using ne True
      by (cases J) (simp_all add: cycleReplacer_default_def circular_marker_def)
  next
    case False
    then have "hd J \<noteq> x" using indexOf_zero_hd [OF xin] by simp
    moreover have pos: "0 < indexOf J x" using False indexOf_bounds [OF xin] by simp
    then have "take (nat (indexOf J x)) (P @ [k]) \<noteq> []" by simp
    ultimately show ?thesis using ne pos
      by (cases J) (simp_all add: cycleReplacer_default_def circular_marker_def slice0_def)
  qed
  show ?thesis
    unfolding stringifySafeSerializer_def Let_def
    using nonempty c1 mark by (simp add: indexOf_absent)
qed

lemma members_correct:
  assumes step: "\<And>c k x. (k, x) \<in> set ms \<Longrightarrow> ctx_pre J P c \<Longrightarrow>
            \<exists>c'. SerializeJSONProperty H toJSON rep J c h k x = (c', Inr (f k x))
                 \<and> take (length J) (stack c') = J \<and> take (length P) (keys c') = P"
    and pre: "ctx_pre J P c"
  shows "\<exists>c'. SerializeMembers H toJSON rep J c h ms = (c', Inr (map (\<lambda>(k, x). (k, f k x)) ms))
              \<and> ctx_pre J P c'"
  using assms
proof (induction ms arbitrary: c)
  case Nil
  then show ?case by simp
next
  case (Cons m ms)
  obtain k x where m: "m = (k, x)" by (cases m)
  from Cons.prems(1) [of k x c] Cons.prems(2) m
  obtain c1 where c1: "SerializeJSONProperty H toJSON rep J c h k x = (c1, Inr (f k x))"
      "take (length J) (stack c1) = J" "take (length P) (keys c1) = P"
    by auto
  then have pre1: "ctx_pre J P c1" by (simp add: ctx_pre_def)
  have "\<exists>c'. SerializeMembers H toJSON rep J c1 h ms = (c', Inr (map (\<lambda>(k, x). (k, f k x)) ms))
              \<and> ctx_pre J P c'"
    by (rule Cons.IH [OF _ pre1]) (use Cons.prems(1) in auto)
  then show ?case using c1 m by auto
qed

lemma property_correct:
  assumes "heap_ok H" and "val_ok H x" and "distinct J" and "J \<noteq> []"
    and "length P + 1 = length J" and "ctx_pre J P c"
  shows "\<exists>c'. SerializeJSONProperty H toJSON (stringifySafeSerializer None None) J c (last J) k x
                 = (c', Inr (walk H J (P @ [k]) x))
              \<and> take (length J) (stack c') = J \<and> take (length P) (keys c') = P"
  using assms
proof (induction "unvisited H J" arbitrary: J P c k x rule: less_induct)
  case less
  let ?rep = "stringifySafeSerializer None None"
  let ?c1 = "\<lparr>stack = J, keys = P @ [k]\<rparr>"
  have step: "?rep c (last J) k x =
      (?c1, if x \<in> set J then JStr (circular_marker (take (nat (indexOf J x)) (P @ [k]))) else x)"
    using less.prems by (intro replacer_step)
  have nohook: "toJSON_of H x = None" using less.prems(2) by (simp add: val_ok_def has_toJSON_def)
  have post1: "take (length J) (stack ?c1) = J \<and> take (length P) (keys ?c1) = P" by simp
  show ?case
  proof (cases "x \<in> set J")
    case True
    then show ?thesis
      using step nohook
      by (subst SerializeJSONProperty.simps, subst walk.simps) simp
  next
    case False
    note fresh = this
    show ?thesis
    proof (cases x)
      case (JRef a)
      from less.prems(2) JRef obtain cell where cell: "map_of H a = Some cell"
        by (auto simp: val_ok_def)
      then have inH: "(a, cell) \<in> set H" by (rule map_of_SomeD)
      have mem_ok: "val_ok H y" if "(k', y) \<in> set (members cell)" for k' y
        using less.prems(1) inH that unfolding heap_ok_def by blast
      have smaller: "unvisited H (J @ [x]) < unvisited H J"
      proof -
        have "a \<in> fst ` set H" using inH by force
        then have "fst ` set H - {b. JRef b \<in> set (J @ [x])} \<subset> fst ` set H - {b. JRef b \<in> set J}"
          using fresh JRef by auto
        then show ?thesis unfolding unvisited_def by (intro psubset_card_mono) auto
      qed
      have pre': "ctx_pre (J @ [x]) (P @ [k]) ?c1"
        using less.prems(4) by (simp add: ctx_pre_def)
      have each: "\<exists>c'. SerializeJSONProperty H toJSON ?rep (J @ [x]) c0 x k' y
                        = (c', Inr (walk H (J @ [x]) ((P @ [k]) @ [k']) y))
                 \<and> take (length (J @ [x])) (stack c') = J @ [x]
                 \<and> take (length (P @ [k])) (keys c') = P @ [k]"
        if "(k', y) \<in> set (members cell)" and "ctx_pre (J @ [x]) (P @ [k]) c0" for c0 k' y
      proof -
        have "\<exists>c'. SerializeJSONProperty H toJSON ?rep (J @ [x]) c0 (last (J @ [x])) k' y
                        = (c', Inr (walk H (J @ [x]) ((P @ [k]) @ [k']) y))
                 \<and> take (length (J @ [x])) (stack c') = J @ [x]
                 \<and> take (length (P @ [k])) (keys c') = P @ [k]"
          using smaller less.prems(1) mem_ok [OF that(1)] less.prems(3) fresh less.prems(5) that(2)
          by (intro less.hyps) auto
        then show ?thesis by simp
      qed
      from members_correct [of "members cell" "J @ [x]" "P @ [k]" H toJSON ?rep x
          "\<lambda>k' y. walk H (J @ [x]) ((P @ [k]) @ [k']) y" ?c1, OF each pre']
      obtain c2 where c2: "SerializeMembers H toJSON ?rep (J @ [x]) ?c1 x (members cell)
            = (c2, Inr (map (\<lambda>(k', y). (k', walk H (J @ [x]) ((P @ [k]) @ [k']) y)) (members cell)))"
          and post2: "ctx_pre (J @ [x]) (P @ [k]) c2"
        by blast
      have keep: "take (length J) (stack c2) = J \<and> take (length P) (keys c2) = P"
      proof -
        from post2 consider
            (a) "stack c2 = J" "keys c2 = P @ [k]"
          | (b) "take (Suc (length J)) (stack c2) = J @ [x]" "take (Suc (length P)) (keys c2) = P @ [k]"
          unfolding ctx_pre_def by auto
        then show ?thesis
        proof cases
          case a
          then show ?thesis by simp
        next
          case b
          have "take (length J) (take (Suc (length J)) (stack c2)) = take (length J) (stack c2)"
            by (simp add: min_def)
          moreover have "take (length P) (take (Suc (length P)) (keys c2)) = take (length P) (keys c2)"
            by (simp add: min_def)
          ultimately show ?thesis using b by simp
        qed
      qed
      show ?thesis
        using step nohook fresh JRef cell c2 keep
        by (subst SerializeJSONProperty.simps, subst walk.simps) simp
    qed (use step nohook fresh post1 in
          \<open>(subst SerializeJSONProperty.simps, subst walk.simps, simp)+\<close>)
  qed
qed

lemma stringifySafe_document_walk:
  assumes "heap_ok H" and "val_ok H v"
  shows "stringifySafe_document H toJSON v None None = Inr (walk H [] [] v)"
proof -
  let ?rep = "stringifySafeSerializer None None"
  let ?c0 = "\<lparr>stack = [], keys = []\<rparr>"
  let ?c1 = "\<lparr>stack = [v], keys = []\<rparr>"
  have first: "?rep ?c0 JUndefined [] v = (?c1, v)"
    by (simp add: stringifySafeSerializer_def)
  have nohook: "toJSON_of H v = None" using assms(2) by (simp add: val_ok_def has_toJSON_def)
  show ?thesis
    unfolding stringifySafe_document_def JSON_document_def
  proof (cases v)
    case (JRef a)
    from assms(2) JRef obtain cell where cell: "map_of H a = Some cell"
      by (auto simp: val_ok_def)
    then have inH: "(a, cell) \<in> set H" by (rule map_of_SomeD)
    have mem_ok: "val_ok H y" if "(k', y) \<in> set (members cell)" for k' y
      using assms(1) inH that unfolding heap_ok_def by blast
    have pre: "ctx_pre [v] [] ?c1" by (simp add: ctx_pre_def)
    have each: "\<exists>c'. SerializeJSONProperty H toJSON ?rep [v] c0 v k' y = (c', Inr (walk H [v] ([] @ [k']) y))
                 \<and> take (length [v]) (stack c') = [v] \<and> take (length ([]::string list)) (keys c') = []"
      if "(k', y) \<in> set (members cell)" and "ctx_pre [v] [] c0" for c0 k' y
      using property_correct [OF assms(1) mem_ok [OF that(1)], where J = "[v]" and P = "[]"
            and c = c0 and k = k' and toJSON = toJSON] that(2)
      by simp
    from members_correct [of "members cell" "[v]" "[]" H toJSON ?rep v
          "\<lambda>k' y. walk H [v] ([] @ [k']) y" ?c1, OF each pre]
    obtain c2 where c2: "SerializeMembers H toJSON ?rep [v] ?c1 v (members cell)
            = (c2, Inr (map (\<lambda>(k', y). (k', walk H [v] ([] @ [k']) y)) (members cell)))"
      by blast
    show "snd (SerializeJSONProperty H toJSON ?rep [] ?c0 JUndefined [] v) = Inr (walk H [] [] v)"
      using first nohook JRef cell c2
      by (subst SerializeJSONProperty.simps, subst walk.simps) simp
  qed (use first nohook in
        \<open>(subst SerializeJSONProperty.simps, subst walk.simps, simp)+\<close>)
qed

lemma map_of_map_member:
  "map_of (map (\<lambda>(k, x). (k, f k x)) ms) k = map_option (f k) (map_of ms k)"
  by (induction ms) auto

lemma map_of_kept:
  "map_of rs k = Some (Some j) \<Longrightarrow>
     map_of (List.map_filter (\<lambda>(k, r). map_option (Pair k) r) rs) k = Some j"
  by (induction rs) (auto simp: List.map_filter_simps split: option.splits if_splits)

lemma zip_keys_map:
  "length ks = length xs \<Longrightarrow>
     zip ks (map g (zip ks xs)) = map (\<lambda>(k, x). (k, g (k, x))) (zip ks xs)"
  by (induction ks xs rule: list_induct2) auto

lemma assemble_member:
  assumes "map_of (members cell) k = Some x" and "f k x = Some j"
  shows "map_of (json_members (assemble cell (map (\<lambda>(k, x). (k, f k x)) (members cell)))) k = Some j"
proof (cases cell)
  case (HObj props)
  have "map_of (map (\<lambda>(k, x). (k, f k x)) (members cell)) k = Some (Some j)"
    using assms by (simp add: map_of_map_member)
  then show ?thesis
    using HObj by (simp add: assemble_def json_members_def map_of_kept)
next
  case (HArr xs)
  let ?ks = "map show_nat [0..<length xs]"
  let ?g = "\<lambda>(k, x). case f k x of None \<Rightarrow> JsNull | Some j \<Rightarrow> j"
  have mem: "members cell = zip ?ks xs" using HArr by (simp add: members_def)
  have eq: "map (\<lambda>(k, r). case r of None \<Rightarrow> JsNull | Some j \<Rightarrow> j)
            (map (\<lambda>(k, x). (k, f k x)) zs) = map ?g zs" for zs
    by (induction zs) auto
  have "assemble cell (map (\<lambda>(k, x). (k, f k x)) (members cell)) = JsArr (map ?g (zip ?ks xs))"
    unfolding mem using HArr eq [of "zip ?ks xs"] by (simp only: assemble_def hcell.case)
  moreover have "length (map ?g (zip ?ks xs)) = length xs" by simp
  ultimately have out: "json_members (assemble cell (map (\<lambda>(k, x). (k, f k x)) (members cell)))
          = zip ?ks (map ?g (zip ?ks xs))"
    by (simp only: json_members_def json.case)
  have "zip ?ks (map ?g (zip ?ks xs)) = map (\<lambda>(k, x). (k, ?g (k, x))) (zip ?ks xs)"
    by (rule zip_keys_map) simp
  then have "map_of (zip ?ks (map ?g (zip ?ks xs))) k
                = map_option (\<lambda>x. case f k x of None \<Rightarrow> JsNull | Some j \<Rightarrow> j) (map_of (zip ?ks xs) k)"
    using map_of_map_member [of "\<lambda>k x. case f k x of None \<Rightarrow> JsNull | Some j \<Rightarrow> j" "zip ?ks xs" k]
    by simp
  then show ?thesis using out assms mem by simp
qed

lemma walk_marks_cycle:
  assumes "descend H v path = Some anc" and "distinct (pre @ anc)"
    and "length ppath = length pre"
    and "member_at H (last anc) k = Some t" and "t \<in> set (pre @ anc)"
  shows "\<exists>doc. walk H pre ppath v = Some doc
           \<and> json_at doc (path @ [k])
               = Some (JsStr (circular_marker (take (nat (indexOf (pre @ anc) t)) (ppath @ path))))"
  using assms
proof (induction path arbitrary: v pre ppath anc)
  case Nil
  then have anc: "anc = [v]" by simp
  with Nil.prems have notin: "v \<notin> set pre" by simp
  from Nil.prems(4) anc obtain a cell where v: "v = JRef a" and cell: "map_of H a = Some cell"
      and mem: "map_of (members cell) k = Some t"
    by (auto simp: member_at_def split: jv.splits option.splits)
  let ?f = "\<lambda>k x. walk H (pre @ [v]) (ppath @ [k]) x"
  have idx: "0 \<le> indexOf (pre @ [v]) t \<and> nat (indexOf (pre @ [v]) t) < length (pre @ [v])"
    using indexOf_bounds Nil.prems(5) anc by metis
  then have tk: "take (nat (indexOf (pre @ [v]) t)) (ppath @ [k])
               = take (nat (indexOf (pre @ [v]) t)) ppath"
    using Nil.prems(3) by simp
  have "?f k t = Some (JsStr (circular_marker (take (nat (indexOf (pre @ [v]) t)) ppath)))"
    using Nil.prems(5) anc tk by (subst walk.simps) simp
  from assemble_member [of cell k t ?f, OF mem this]
  have "map_of (json_members (assemble cell (map (\<lambda>(k, x). (k, ?f k x)) (members cell)))) k
          = Some (JsStr (circular_marker (take (nat (indexOf (pre @ [v]) t)) ppath)))" .
  moreover have "walk H pre ppath v
          = Some (assemble cell (map (\<lambda>(k, x). (k, ?f k x)) (members cell)))"
    using notin v cell by (subst walk.simps) simp
  ultimately show ?case using anc by simp
next
  case (Cons k1 rest)
  from Cons.prems(1) obtain y anc' where y: "member_at H v k1 = Some y"
      and anc': "descend H y rest = Some anc'" and anc: "anc = v # anc'"
    by (auto split: option.splits)
  have ne: "anc' \<noteq> []" using anc' by (cases rest) (auto split: option.splits)
  from Cons.prems(2) anc have notin: "v \<notin> set pre" by simp
  from y obtain a cell where v: "v = JRef a" and cell: "map_of H a = Some cell"
      and mem: "map_of (members cell) k1 = Some y"
    by (auto simp: member_at_def split: jv.splits option.splits)
  let ?f = "\<lambda>k x. walk H (pre @ [v]) (ppath @ [k]) x"
  have "\<exists>doc. walk H (pre @ [v]) (ppath @ [k1]) y = Some doc
           \<and> json_at doc (rest @ [k])
               = Some (JsStr (circular_marker
                    (take (nat (indexOf ((pre @ [v]) @ anc') t)) ((ppath @ [k1]) @ rest))))"
    using Cons.prems anc ne by (intro Cons.IH [OF anc']) auto
  then obtain doc where doc: "?f k1 y = Some doc"
      "json_at doc (rest @ [k])
         = Some (JsStr (circular_marker (take (nat (indexOf (pre @ anc) t)) (ppath @ k1 # rest))))"
    using anc by auto
  from assemble_member [of cell k1 y ?f, OF mem doc(1)]
  have "map_of (json_members (assemble cell (map (\<lambda>(k, x). (k, ?f k x)) (members cell)))) k1
          = Some doc" .
  moreover have "walk H pre ppath v
          = Some (assemble cell (map (\<lambda>(k, x). (k, ?f k x)) (members cell)))"
    using notin v cell by (subst walk.simps) simp
  ultimately show ?case using doc(2) by simp
qed

text \<open>
  C9. (as amended) On a heap of plain data (\<open>heap_ok\<close>: every reference has a cell,
  every number is a safe integer and no object carries a callable \<^verbatim>\<open>toJSON\<close>),
  \<^verbatim>\<open>stringifySafe\<close> returns for every value, cyclic or not, whatever the hooks are: the
  result is never an error, and it is the document (and its text) of the traversal with an
  explicit ancestor stack and key path, \<open>walk\<close>. Whenever the keys \<open>path\<close> lead from the
  value through distinct objects \<open>anc\<close> and the member \<open>k\<close> of the last one is the ancestor
  \<open>anc ! i\<close>, the document holds at \<open>path @ [k]\<close> the marker \<^verbatim>\<open>[Circular ~.\<close>\<open>p\<close>\<^verbatim>\<open>]\<close> for the
  dotted keys \<open>p\<close> leading to that ancestor, and the bare marker \<^verbatim>\<open>[Circular ~]\<close> when the
  ancestor is the top-level value (\<open>i = 0\<close>).
\<close>

theorem stringifySafe_cycle_safe:
  assumes "heap_ok H" and "val_ok H v"
  shows "stringifySafe_document H toJSON v None None = Inr (walk H [] [] v)
       \<and> stringifySafe H toJSON v None None = Inr (map_option render (walk H [] [] v))
       \<and> (\<forall>path anc k i.
            descend H v path = Some anc \<and> distinct anc \<and> i < length anc
              \<and> member_at H (last anc) k = Some (anc ! i)
            \<longrightarrow> (\<exists>doc. stringifySafe_document H toJSON v None None = Inr (Some doc)
                   \<and> json_at doc (path @ [k]) = Some (JsStr (circular_marker (take i path)))))"
proof -
  have doc: "stringifySafe_document H toJSON v None None = Inr (walk H [] [] v)"
    using assms by (rule stringifySafe_document_walk)
  then have rendered: "stringifySafe H toJSON v None None = Inr (map_option render (walk H [] [] v))"
    by (simp add: stringifySafe_def stringifySafe_document_def JSON_stringify_def)
  have mark: "\<exists>d. stringifySafe_document H toJSON v None None = Inr (Some d)
                   \<and> json_at d (path @ [k]) = Some (JsStr (circular_marker (take i path)))"
    if "descend H v path = Some anc" "distinct anc" "i < length anc"
       "member_at H (last anc) k = Some (anc ! i)" for path anc k i
  proof -
    have "\<exists>d. walk H [] [] v = Some d
           \<and> json_at d (path @ [k])
               = Some (JsStr (circular_marker (take (nat (indexOf ([] @ anc) (anc ! i))) ([] @ path))))"
      using that by (intro walk_marks_cycle) auto
    moreover have "indexOf anc (anc ! i) = int i" using that by (intro indexOf_nth)
    ultimately show ?thesis using doc by auto
  qed
  show ?thesis using doc rendered mark by blast
qed

theorem stringifySafe_cycle_safe_witness:
  "heap_ok cyclic_heap \<and> val_ok cyclic_heap (JRef 0)
   \<and> descend cyclic_heap (JRef 0) [''list'', ''0''] = Some [JRef 0, JRef 2, JRef 1]
   \<and> member_at cyclic_heap (JRef 1) ''me'' = Some (JRef 1)
   \<and> stringifySafe cyclic_heap no_toJSON (JRef 0) None None = Inr (Some
        (''{'' @ quote ''self'' @ '':'' @ quote ''[Circular ~]'' @ '','' @ quote ''n'' @ '':5,''
         @ quote ''child'' @ '':{'' @ quote ''up'' @ '':'' @ quote ''[Circular ~]'' @ '',''
           @ quote ''me'' @ '':'' @ quote ''[Circular ~.child]'' @ ''},''
         @ quote ''list'' @ '':[{'' @ quote ''up'' @ '':'' @ quote ''[Circular ~]'' @ '',''
           @ quote ''me'' @ '':'' @ quote ''[Circular ~.list.0]'' @ ''},''
           @ quote ''[Circular ~.list]'' @ '',null]}''))
   \<and> stringifySafe_document cyclic_heap no_toJSON (JRef 0) None None =
       Inr (Some (JsObj
         [(''self'', JsStr ''[Circular ~]''), (''n'', JsNum 5),
          (''child'', JsObj [(''up'', JsStr ''[Circular ~]''), (''me'', JsStr ''[Circular ~.child]'')]),
          (''list'', JsArr
             [JsObj [(''up'', JsStr ''[Circular ~]''), (''me'', JsStr ''[Circular ~.list.0]'')],
              JsStr ''[Circular ~.list]'', JsNull])]))"
proof -
  have h: "heap_ok cyclic_heap" by code_simp
  have v: "val_ok cyclic_heap (JRef 0)" by code_simp
  have w: "walk cyclic_heap [] [] (JRef 0) =
       Some (JsObj
         [(''self'', JsStr ''[Circular ~]''), (''n'', JsNum 5),
          (''child'', JsObj [(''up'', JsStr ''[Circular ~]''), (''me'', JsStr ''[Circular ~.child]'')]),
          (''list'', JsArr
             [JsObj [(''up'', JsStr ''[Circular ~]''), (''me'', JsStr ''[Circular ~.list.0]'')],
              JsStr ''[Circular ~.list]'', JsNull])])"
    by code_simp
  have d: "descend cyclic_heap (JRef 0) [''list'', ''0''] = Some [JRef 0, JRef 2, JRef 1]"
    by code_simp
  have m: "member_at cyclic_heap (JRef 1) ''me'' = Some (JRef 1)" by code_simp
  have r: "map_option render (walk cyclic_heap [] [] (JRef 0)) = Some
        (''{'' @ quote ''self'' @ '':'' @ quote ''[Circular ~]'' @ '','' @ quote ''n'' @ '':5,''
         @ quote ''child'' @ '':{'' @ quote ''up'' @ '':'' @ quote ''[Circular ~]'' @ '',''
           @ quote ''me'' @ '':'' @ quote ''[Circular ~.child]'' @ ''},''
         @ quote ''list'' @ '':[{'' @ quote ''up'' @ '':'' @ quote ''[Circular ~]'' @ '',''
           @ quote ''me'' @ '':'' @ quote ''[Circular ~.list.0]'' @ ''},''
           @ quote ''[Circular ~.list]'' @ '',null]}'')"
    by code_simp
  show ?thesis using stringifySafe_cycle_safe [OF h v] h v w d m r by simp
qed

text \<open>
  The claim as stated, for every value, fails on \<^verbatim>\<open>[{toJSON() { throw 'boom' }}]\<close>: the
  library calls the hook before the replacer, and what the hook throws leaves
  \<^verbatim>\<open>stringifySafe\<close>.
\<close>

theorem stringifySafe_throws_counterexample:
  "toJSON_of hooked_heap (JRef 1) = Some (JFun 0)
   \<and> stringifySafe_document hooked_heap throwing_toJSON (JRef 0) None None
       = Inl (Thrown (JStr ''boom''))
   \<and> stringifySafe hooked_heap throwing_toJSON (JRef 0) None None = Inl (Thrown (JStr ''boom''))"
  by code_simp

text \<open>
  A hook that returns has its result serialized in the place of the object, as for a
  \<^verbatim>\<open>Date\<close>.
\<close>

lemma stringifySafe_toJSON_example:
  "stringifySafe hooked_heap date_toJSON (JRef 0) None None
     = Inr (Some (''['' @ quote ''2020-01-01T00:00:00.000Z'' @ '']''))"
  by code_simp

section \<open>Lemmas on a capturing call\<close>

lemma keys_assign: "fst ` set (assign k v obj) = insert k (fst ` set obj)"
  by (induction obj) (force split: if_splits)+

lemma map_of_assign: "map_of (assign k v obj) k' = (if k' = k then Some v else map_of obj k')"
  by (induction obj) auto

lemma keys_to_doc: "fst ` set (to_doc obj) \<subseteq> fst ` set obj"
  by (induction obj) (auto simp: to_doc_def List.map_filter_simps split: option.splits)

lemma map_of_to_doc: "map_of obj k = Some (Some v) \<Longrightarrow> map_of (to_doc obj) k = Some v"
  unfolding to_doc_def by (rule map_of_kept)

lemma key_in_to_doc: "map_of obj k = Some (Some v) \<Longrightarrow> k \<in> fst ` set (to_doc obj)"
proof -
  assume "map_of obj k = Some (Some v)"
  then have "map_of (to_doc obj) k = Some v" by (rule map_of_to_doc)
  then have "(k, v) \<in> set (to_doc obj)" by (rule map_of_SomeD)
  then show ?thesis by force
qed

lemma written_append: "written (xs @ ys) = written xs @ written ys"
  by (induction xs rule: written.induct) auto

lemma data_ok_assign:
  assumes "data_ok a data" and "k \<in> fixture_keys" and "k \<noteq> ''callArgs''"
  shows "data_ok a (assign k v data)"
  using assms unfolding data_ok_def
  by (auto simp: keys_assign map_of_assign)

lemma good_to_doc:
  assumes "data_ok a data"
  shows "good_write a (to_doc data)"
proof -
  have sub: "fst ` set (to_doc data) \<subseteq> fst ` set data" by (rule keys_to_doc)
  have c1: "map_of (to_doc data) ''callArgs'' = Some (FStr a)"
    using assms by (simp add: data_ok_def map_of_to_doc)
  have "fst ` set data \<subseteq> fixture_keys" using assms by (simp add: data_ok_def)
  with sub have c2: "fst ` set (to_doc data) \<subseteq> fixture_keys" by (rule subset_trans)
  show ?thesis
    unfolding good_write_def using c1 c2 by (intro conjI)
qed

lemma inv_write:
  assumes inv: "capture_inv fs0 a p r" and ok: "data_ok a data"
    and tail: "written rest = []" "\<forall>q d. Wrote q d \<notin> set rest"
  shows "capture_inv fs0 a p
           (r\<lparr>wrappedCallData := data, handlers := h,
              files := (files r)(p := Fixture (to_doc data)),
              actions := actions r @ [Wrote p (to_doc data)] @ rest\<rparr>)"
  using inv ok tail good_to_doc [OF ok] unfolding capture_inv_def
  by (auto simp: written_append)

lemma proxy_call_eq:
  "proxy_call opts p r cbArgs =
     r\<lparr>wrappedCallData := assign ''callbackArgs'' (Some (FStr (responseSerializer opts cbArgs))) (wrappedCallData r),
       handlers := handlers r,
       files := (files r)(p := Fixture (to_doc
           (assign ''callbackArgs'' (Some (FStr (responseSerializer opts cbArgs))) (wrappedCallData r)))),
       actions := actions r @ [Wrote p (to_doc
           (assign ''callbackArgs'' (Some (FStr (responseSerializer opts cbArgs))) (wrappedCallData r)))]
         @ [CalledBack (origCallback r) cbArgs]\<rparr>"
  by (simp add: proxy_call_def writeWrappedCallData_def Let_def)

lemma settle_resolved_eq:
  assumes "handlers r"
  shows "settle opts p r (PromiseResolved v) =
     r\<lparr>wrappedCallData := assign ''promiseResolutionArgs'' (Some (FStr (responseSerializer opts [v]))) (wrappedCallData r),
       handlers := thenable r,
       files := (files r)(p := Fixture (to_doc
           (assign ''promiseResolutionArgs'' (Some (FStr (responseSerializer opts [v]))) (wrappedCallData r)))),
       actions := actions r @ [Wrote p (to_doc
           (assign ''promiseResolutionArgs'' (Some (FStr (responseSerializer opts [v]))) (wrappedCallData r)))]
         @ [FutureResolved v]\<rparr>"
  using assms by (simp add: settle_def writeWrappedCallData_def Let_def)

lemma settle_rejected_eq:
  assumes "handlers r"
  shows "settle opts p r (PromiseRejected e) =
     r\<lparr>wrappedCallData := assign ''promiseRejectionArgs'' (Some (FStr (responseSerializer opts [e]))) (wrappedCallData r),
       handlers := thenable r,
       files := (files r)(p := Fixture (to_doc
           (assign ''promiseRejectionArgs'' (Some (FStr (responseSerializer opts [e]))) (wrappedCallData r)))),
       actions := actions r @ [Wrote p (to_doc
           (assign ''promiseRejectionArgs'' (Some (FStr (responseSerializer opts [e]))) (wrappedCallData r)))]
         @ [FutureRejected e]\<rparr>"
  using assms by (simp add: settle_def writeWrappedCallData_def Let_def)

lemma inv_proxy_call:
  assumes inv: "capture_inv fs0 a p r"
  shows "capture_inv fs0 a p (proxy_call opts p r cbArgs)"
proof -
  let ?data = "assign ''callbackArgs'' (Some (FStr (responseSerializer opts cbArgs))) (wrappedCallData r)"
  have ok: "data_ok a ?data"
    using inv by (intro data_ok_assign) (auto simp: capture_inv_def fixture_keys_def)
  show ?thesis
    unfolding proxy_call_eq
    by (rule inv_write [OF inv ok]) auto
qed

lemma proxy_call_fields:
  "proxy (proxy_call opts p r cbArgs) = proxy r"
  "handlers (proxy_call opts p r cbArgs) = handlers r"
  "thenable (proxy_call opts p r cbArgs) = thenable r"
  "result (proxy_call opts p r cbArgs) = result r"
  "deferred (proxy_call opts p r cbArgs) = deferred r"
  "reads (proxy_call opts p r cbArgs) = reads r"
  "origCallback (proxy_call opts p r cbArgs) = origCallback r"
  by (simp_all add: proxy_call_eq)

lemma inv_proxy_calls:
  assumes "capture_inv fs0 a p r"
  shows "capture_inv fs0 a p (foldl (proxy_call opts p) r ds)"
  using assms
  by (induction ds arbitrary: r) (simp_all add: inv_proxy_call)

lemma inv_settle:
  assumes inv: "capture_inv fs0 a p r"
  shows "capture_inv fs0 a p (settle opts p r ev)"
proof (cases ev)
  case (CallbackFired cbArgs)
  then show ?thesis using inv by (simp add: settle_def inv_proxy_call)
next
  case (PromiseResolved v)
  show ?thesis
  proof (cases "handlers r")
    case False
    then show ?thesis using inv PromiseResolved by (simp add: settle_def)
  next
    case True
    let ?data = "assign ''promiseResolutionArgs'' (Some (FStr (responseSerializer opts [v]))) (wrappedCallData r)"
    have ok: "data_ok a ?data"
      using inv by (intro data_ok_assign) (auto simp: capture_inv_def fixture_keys_def)
    show ?thesis
      unfolding PromiseResolved settle_resolved_eq [OF True]
      by (rule inv_write [OF inv ok]) auto
  qed
next
  case (PromiseRejected e)
  show ?thesis
  proof (cases "handlers r")
    case False
    then show ?thesis using inv PromiseRejected by (simp add: settle_def)
  next
    case True
    let ?data = "assign ''promiseRejectionArgs'' (Some (FStr (responseSerializer opts [e]))) (wrappedCallData r)"
    have ok: "data_ok a ?data"
      using inv by (intro data_ok_assign) (auto simp: capture_inv_def fixture_keys_def)
    show ?thesis
      unfolding PromiseRejected settle_rejected_eq [OF True]
      by (rule inv_write [OF inv ok]) auto
  qed
qed

lemma inv_settles:
  "capture_inv fs0 a p r \<Longrightarrow> capture_inv fs0 a p (foldl (settle opts p) r evs)"
  by (induction evs arbitrary: r) (simp_all add: inv_settle)

lemma inv_data_update:
  assumes "capture_inv fs0 a p r" and "data_ok a data"
  shows "capture_inv fs0 a p (r\<lparr>wrappedCallData := data, result := res, handlers := h, thenable := t\<rparr>)"
  using assms unfolding capture_inv_def by simp

lemma then_callable_promise: "then_callable H (JPromise n)"
  by (simp add: then_callable_def)

lemma capture_cases:
  assumes "r2 = (if proxy r0
                 then foldl (proxy_call opts p) (r0\<lparr>actions := actions r0 @ [CalledOriginal self args]\<rparr>)
                        (during (originalFn self args))
                 else r0\<lparr>actions := actions r0 @ [CalledOriginal self args]\<rparr>)"
  shows "capture H opts p originalFn self args r0 =
     (case completion (originalFn self args) of
        Throw e \<Rightarrow> r2\<lparr>result := Threw (Raised e)\<rparr>
      | Return v \<Rightarrow>
          (if truthy_f (returnedPromise_of H v) then
             r2\<lparr>wrappedCallData := assign ''returnedPromise'' (returnedPromise_of H v) (wrappedCallData r2),
                result := (if user_thenable H v then chained (originalFn self args)
                           else if then_callable H v then ReturnedFuture else Threw TypeError),
                handlers := (then_callable H v \<or> handlers r2),
                thenable := (user_thenable H v \<or> thenable r2)\<rparr>
           else
             r2\<lparr>wrappedCallData :=
                  assign ''returnValue'' (map_option FStr (returnValueSerializer opts v))
                    (assign ''returnedPromise'' (returnedPromise_of H v) (wrappedCallData r2)),
                result := Returned v\<rparr>))"
proof (cases "completion (originalFn self args)")
  case (Throw e)
  then show ?thesis unfolding assms by (simp add: capture_def Let_def)
next
  case (Return v)
  show ?thesis
  proof (cases "\<exists>n. v = JPromise n")
    case True
    then show ?thesis
      unfolding assms using Return
      by (auto simp: capture_def Let_def user_thenable_def then_callable_promise)
  next
    case False
    then have u: "user_thenable H v = then_callable H v"
      by (cases v) (simp_all add: user_thenable_def)
    have c: "(case v of JPromise x \<Rightarrow> A | _ \<Rightarrow> B) = B" for A B :: run
      using False by (cases v) simp_all
    show ?thesis
      unfolding assms using Return
      by (simp add: capture_def Let_def u c)
  qed
qed

lemma inv_capture:
  assumes r0: "capture_inv fs0 a p r0" "written (actions r0) = []"
  shows "capture_inv fs0 a p (capture H opts p originalFn self args r0)"
proof -
  let ?b = "originalFn self args"
  let ?r1 = "r0\<lparr>actions := actions r0 @ [CalledOriginal self args]\<rparr>"
  define r2 where "r2 = (if proxy r0 then foldl (proxy_call opts p) ?r1 (during ?b) else ?r1)"
  note eq = capture_cases [where originalFn = originalFn and self = self and args = args
      and H = H, OF r2_def]
  have r1: "capture_inv fs0 a p ?r1"
    using r0 unfolding capture_inv_def by (auto simp: written_append)
  have r2: "capture_inv fs0 a p r2"
    unfolding r2_def using r1 by (simp add: inv_proxy_calls)
  show ?thesis
  proof (cases "completion ?b")
    case (Throw e)
    have "capture_inv fs0 a p (r2\<lparr>result := Threw (Raised e)\<rparr>)"
      using r2 unfolding capture_inv_def by simp
    then show ?thesis unfolding eq using Throw by simp
  next
    case (Return v)
    let ?rp = "returnedPromise_of H v"
    let ?d3 = "assign ''returnedPromise'' ?rp (wrappedCallData r2)"
    let ?d4 = "assign ''returnValue'' (map_option FStr (returnValueSerializer opts v)) ?d3"
    have ok2: "data_ok a (wrappedCallData r2)" using r2 by (simp add: capture_inv_def)
    have ok3: "data_ok a ?d3"
      by (rule data_ok_assign [OF ok2]) (simp_all add: fixture_keys_def)
    have ok4: "data_ok a ?d4"
      by (rule data_ok_assign [OF ok3]) (simp_all add: fixture_keys_def)
    have a: "capture_inv fs0 a p (r2\<lparr>wrappedCallData := ?d3, result := res, handlers := h, thenable := t\<rparr>)"
      for res h t
      using r2 ok3 by (rule inv_data_update)
    have c: "capture_inv fs0 a p (r2\<lparr>wrappedCallData := ?d4, result := res\<rparr>)" for res
      using r2 ok4 unfolding capture_inv_def by simp
    show ?thesis
      unfolding eq using Return a c by simp
  qed
qed

lemma wrapper_capture:
  assumes "mode opts = Some ''capture''"
  shows "wrapper H L opts originalFn fs self args =
           capture H opts (fixture_path L opts (argumentSerializer opts args)) originalFn self
             (if args \<noteq> [] \<and> is_callable (last args)
              then fst (callbackSwap opts self args JProxy) else args)
             \<lparr>result = Returned JUndefined, actions = [], deferred = [], reads = [], files = fs,
              wrappedCallData = [(''callArgs'', Some (FStr (argumentSerializer opts args)))],
              origCallback = (if args \<noteq> [] \<and> is_callable (last args)
                              then snd (callbackSwap opts self args JProxy) else JUndefined),
              proxy = (args \<noteq> [] \<and> is_callable (last args)), handlers = False, thenable = False\<rparr>"
proof (cases "args \<noteq> [] \<and> is_callable (last args)")
  case True
  obtain args' cb where sw: "callbackSwap opts self args JProxy = (args', cb)"
    by (cases "callbackSwap opts self args JProxy")
  show ?thesis using assms True sw by (simp add: wrapper_def Let_def)
next
  case False
  show ?thesis using assms False by (auto simp: wrapper_def Let_def)
qed

lemma capture_run_inv:
  assumes "mode opts = Some ''capture''"
  shows "capture_inv fs (argumentSerializer opts args)
           (fixture_path L opts (argumentSerializer opts args))
           (after_events L opts args (wrapper H L opts originalFn fs self args) evs)"
proof -
  let ?a = "argumentSerializer opts args"
  let ?p = "fixture_path L opts ?a"
  have "capture_inv fs ?a ?p (wrapper H L opts originalFn fs self args)"
    unfolding wrapper_capture [OF assms]
    by (rule inv_capture) (simp_all add: capture_inv_def data_ok_def fixture_keys_def)
  then show ?thesis
    unfolding after_events_def by (rule inv_settles)
qed

section \<open>Lemmas on the outcome groups of a record\<close>

lemma distinct_assign: "distinct (map fst obj) \<Longrightarrow> distinct (map fst (assign k v obj))"
proof (induction obj)
  case Nil
  then show ?case by simp
next
  case (Cons x obj)
  obtain k' v' where x: "x = (k', v')" by (cases x)
  have "k' \<notin> fst ` set (assign k v obj)" if "k' \<noteq> k"
    using Cons.prems x that by (simp add: keys_assign)
  then show ?case using Cons x by auto
qed

lemma value_of_assign: "value_of (assign k v obj) k' = (if k' = k then v else value_of obj k')"
  by (simp add: value_of_def map_of_assign)

lemma map_of_to_doc_value:
  "distinct (map fst obj) \<Longrightarrow> map_of (to_doc obj) k = value_of obj k"
proof (induction obj)
  case Nil
  then show ?case by (simp add: to_doc_def value_of_def List.map_filter_simps)
next
  case (Cons x obj)
  obtain k' v' where x: "x = (k', v')" by (cases x)
  have IH: "map_of (to_doc obj) k = value_of obj k" using Cons by simp
  have absent: "value_of obj k' = None"
  proof -
    have "k' \<notin> fst ` set obj" using Cons.prems x by simp
    then have "map_of obj k' = None" by (simp add: map_of_eq_None_iff)
    then show ?thesis by (simp add: value_of_def)
  qed
  show ?case
  proof (cases v')
    case None
    then have "to_doc (x # obj) = to_doc obj"
      using x by (simp add: to_doc_def List.map_filter_simps)
    then show ?thesis using IH absent x None by (simp add: value_of_def)
  next
    case (Some w)
    then have "to_doc (x # obj) = (k', w) # to_doc obj"
      using x by (simp add: to_doc_def List.map_filter_simps)
    then show ?thesis using IH x Some by (simp add: value_of_def)
  qed
qed

lemma key_to_doc_value:
  assumes "distinct (map fst obj)"
  shows "(k \<in> fst ` set (to_doc obj)) = (value_of obj k \<noteq> None)"
proof -
  have "(k \<in> fst ` set (to_doc obj)) = (map_of (to_doc obj) k \<noteq> None)"
    by (simp add: map_of_eq_None_iff)
  then show ?thesis using map_of_to_doc_value [OF assms] by simp
qed

lemma groups_ok_mono: "groups_ok False d \<Longrightarrow> groups_ok t d"
  by (simp add: groups_ok_def)

lemma returnedPromise_true:
  "truthy_f (returnedPromise_of H v) \<Longrightarrow> returnedPromise_of H v = Some (FBool True)"
  by (cases v) (auto simp: returnedPromise_of_def truthy_f_def truthy_def split: if_splits)

lemma record_ok_doc:
  assumes "record_ok h t data"
    and "value_of data ''callbackArgs'' \<noteq> None \<or> value_of data ''promiseResolutionArgs'' \<noteq> None
         \<or> value_of data ''promiseRejectionArgs'' \<noteq> None"
  shows "groups_ok t (to_doc data)"
proof -
  have d: "distinct (map fst data)" using assms(1) by (simp add: record_ok_def)
  show ?thesis
    using assms unfolding record_ok_def groups_ok_def
    by (simp add: key_to_doc_value [OF d] map_of_to_doc_value [OF d])
qed

lemma record_ok_callback:
  assumes "record_ok h t data"
  shows "record_ok h t (assign ''callbackArgs'' (Some v) data)"
  using assms unfolding record_ok_def
  by (simp add: value_of_assign distinct_assign)

lemma record_ok_resolved:
  assumes "record_ok True t data"
  shows "record_ok t t (assign ''promiseResolutionArgs'' (Some v) data)"
  using assms unfolding record_ok_def
  by (simp add: value_of_assign distinct_assign)

lemma record_ok_rejected:
  assumes "record_ok True t data"
  shows "record_ok t t (assign ''promiseRejectionArgs'' (Some v) data)"
  using assms unfolding record_ok_def
  by (simp add: value_of_assign distinct_assign)

lemma out_write:
  assumes inv: "outcome_inv r"
    and ok: "record_ok h (thenable r) data"
    and some: "value_of data ''callbackArgs'' \<noteq> None \<or> value_of data ''promiseResolutionArgs'' \<noteq> None
         \<or> value_of data ''promiseRejectionArgs'' \<noteq> None"
    and tail: "\<forall>q d. Wrote q d \<notin> set rest"
  shows "outcome_inv
           (r\<lparr>wrappedCallData := data, handlers := h, files := F,
              actions := actions r @ [Wrote p (to_doc data)] @ rest\<rparr>)"
proof -
  have g: "groups_ok (thenable r) (to_doc data)" using ok some by (rule record_ok_doc)
  have old: "groups_ok (thenable r) d" if "Wrote q d \<in> set (actions r)" for q d
    using inv that unfolding outcome_inv_def by blast
  have "groups_ok (thenable r) d"
    if "Wrote q d \<in> set (actions r @ [Wrote p (to_doc data)] @ rest)" for q d
  proof -
    from that tail have "Wrote q d \<in> set (actions r) \<or> d = to_doc data" by auto
    then show ?thesis using old g by blast
  qed
  then show ?thesis
    unfolding outcome_inv_def using ok by simp
qed

lemma out_proxy_call:
  assumes "outcome_inv r"
  shows "outcome_inv (proxy_call opts p r cbArgs)"
proof -
  have ok: "record_ok (handlers r) (thenable r) (wrappedCallData r)"
    using assms by (simp add: outcome_inv_def)
  show ?thesis
    unfolding proxy_call_eq
    by (rule out_write [OF assms record_ok_callback [OF ok]]) (simp_all add: value_of_assign)
qed

lemma pre_proxy_call:
  assumes "pre_return r"
  shows "pre_return (proxy_call opts p r cbArgs)"
  using assms by (simp add: proxy_call_eq pre_return_def value_of_assign)

lemma out_proxy_calls:
  assumes "outcome_inv r" and "pre_return r"
  shows "outcome_inv (foldl (proxy_call opts p) r ds) \<and> pre_return (foldl (proxy_call opts p) r ds)"
  using assms
  by (induction ds arbitrary: r) (simp_all add: out_proxy_call pre_proxy_call)

lemma out_settle:
  assumes inv: "outcome_inv r"
  shows "outcome_inv (settle opts p r ev)"
proof (cases ev)
  case (CallbackFired cbArgs)
  then show ?thesis using inv by (simp add: settle_def out_proxy_call)
next
  case (PromiseResolved v)
  show ?thesis
  proof (cases "handlers r")
    case False
    then show ?thesis using inv PromiseResolved by (simp add: settle_def)
  next
    case True
    have ok: "record_ok True (thenable r) (wrappedCallData r)"
      using inv True by (simp add: outcome_inv_def)
    show ?thesis
      unfolding PromiseResolved settle_resolved_eq [OF True]
      by (rule out_write [OF inv record_ok_resolved [OF ok]]) (simp_all add: value_of_assign)
  qed
next
  case (PromiseRejected e)
  show ?thesis
  proof (cases "handlers r")
    case False
    then show ?thesis using inv PromiseRejected by (simp add: settle_def)
  next
    case True
    have ok: "record_ok True (thenable r) (wrappedCallData r)"
      using inv True by (simp add: outcome_inv_def)
    show ?thesis
      unfolding PromiseRejected settle_rejected_eq [OF True]
      by (rule out_write [OF inv record_ok_rejected [OF ok]]) (simp_all add: value_of_assign)
  qed
qed

lemma out_settles:
  "outcome_inv r \<Longrightarrow> outcome_inv (foldl (settle opts p) r evs)"
  by (induction evs arbitrary: r) (simp_all add: out_settle)

lemma out_capture:
  assumes r0: "outcome_inv r0" "pre_return r0"
  shows "outcome_inv (capture H opts p originalFn self args r0)"
proof -
  let ?b = "originalFn self args"
  let ?r1 = "r0\<lparr>actions := actions r0 @ [CalledOriginal self args]\<rparr>"
  define r2 where "r2 = (if proxy r0 then foldl (proxy_call opts p) ?r1 (during ?b) else ?r1)"
  note eq = capture_cases [where originalFn = originalFn and self = self and args = args
      and H = H, OF r2_def]
  have r1: "outcome_inv ?r1" "pre_return ?r1"
    using r0 by (auto simp: outcome_inv_def pre_return_def)
  have r2: "outcome_inv r2" "pre_return r2"
    unfolding r2_def using r1 out_proxy_calls [OF r1] by simp_all
  then have d: "distinct (map fst (wrappedCallData r2))"
    unfolding outcome_inv_def record_ok_def by blast
  have nt: "\<not> thenable r2" "\<not> handlers r2" using r2(2) unfolding pre_return_def by blast+
  have old: "groups_ok t d" if "Wrote q d \<in> set (actions r2)" for q d t
  proof -
    have "groups_ok (thenable r2) d" using r2(1) that unfolding outcome_inv_def by blast
    then show ?thesis using nt groups_ok_mono by simp
  qed
  show ?thesis
  proof (cases "completion ?b")
    case (Throw e)
    have "outcome_inv (r2\<lparr>result := Threw (Raised e)\<rparr>)"
      using r2(1) unfolding outcome_inv_def by simp
    then show ?thesis unfolding eq using Throw by simp
  next
    case (Return v)
    let ?rp = "returnedPromise_of H v"
    let ?d3 = "assign ''returnedPromise'' ?rp (wrappedCallData r2)"
    let ?d4 = "assign ''returnValue'' (map_option FStr (returnValueSerializer opts v)) ?d3"
    have d3: "distinct (map fst ?d3)" using d by (rule distinct_assign)
    then have d4: "distinct (map fst ?d4)" by (rule distinct_assign)
    have pre: "value_of (wrappedCallData r2) ''returnValue'' = None"
        "value_of (wrappedCallData r2) ''promiseResolutionArgs'' = None"
        "value_of (wrappedCallData r2) ''promiseRejectionArgs'' = None"
      using r2(2) unfolding pre_return_def by blast+
    show ?thesis
    proof (cases "truthy_f ?rp")
      case True
      then have rp: "?rp = Some (FBool True)" by (rule returnedPromise_true)
      have ok: "record_ok h t ?d3" for h t
        unfolding record_ok_def using d3 pre rp by (simp add: value_of_assign)
      have "outcome_inv (r2\<lparr>wrappedCallData := ?d3, result := res, handlers := h, thenable := t\<rparr>)"
        for res h t
        unfolding outcome_inv_def using ok old by simp
      then show ?thesis unfolding eq using Return True by simp
    next
      case False
      have ok: "record_ok False False ?d4"
        unfolding record_ok_def using d4 pre False by (simp add: value_of_assign)
      have "outcome_inv (r2\<lparr>wrappedCallData := ?d4, result := res\<rparr>)" for res
        unfolding outcome_inv_def using ok nt old by simp
      then show ?thesis unfolding eq using Return False by simp
    qed
  qed
qed

lemma capture_run_outcome:
  assumes "mode opts = Some ''capture''"
  shows "outcome_inv (after_events L opts args (wrapper H L opts originalFn fs self args) evs)"
proof -
  have "outcome_inv (wrapper H L opts originalFn fs self args)"
    unfolding wrapper_capture [OF assms]
    by (rule out_capture) (simp_all add: outcome_inv_def record_ok_def pre_return_def value_of_def)
  then show ?thesis
    unfolding after_events_def by (rule out_settles)
qed

lemma settle_thenable: "thenable (settle opts p r ev) = thenable r"
  by (cases ev) (simp_all add: settle_def proxy_call_eq writeWrappedCallData_def Let_def)

lemma settles_thenable: "thenable (foldl (settle opts p) r evs) = thenable r"
  by (induction evs arbitrary: r) (simp_all add: settle_thenable)

lemma proxy_calls_thenable: "thenable (foldl (proxy_call opts p) r ds) = thenable r"
  by (induction ds arbitrary: r) (simp_all add: proxy_call_fields)

lemma capture_thenable:
  assumes "thenable (capture H opts p originalFn self args r0)" and "\<not> thenable r0"
  shows "\<exists>v. completion (originalFn self args) = Return v \<and> user_thenable H v"
proof -
  let ?b = "originalFn self args"
  let ?r1 = "r0\<lparr>actions := actions r0 @ [CalledOriginal self args]\<rparr>"
  define r2 where "r2 = (if proxy r0 then foldl (proxy_call opts p) ?r1 (during ?b) else ?r1)"
  note eq = capture_cases [where originalFn = originalFn and self = self and args = args
      and H = H, OF r2_def]
  have nt: "\<not> thenable r2"
    unfolding r2_def using assms(2) by (simp add: proxy_calls_thenable)
  show ?thesis
  proof (cases "completion ?b")
    case (Throw e)
    then show ?thesis using assms(1) nt unfolding eq by simp
  next
    case (Return v)
    then show ?thesis using assms(1) nt unfolding eq by (simp split: if_splits)
  qed
qed

lemma capture_run_thenable:
  assumes "mode opts = Some ''capture''"
    and "thenable (after_events L opts args (wrapper H L opts originalFn fs self args) evs)"
  shows "\<exists>s a v. completion (originalFn s a) = Return v \<and> user_thenable H v"
proof -
  have "thenable (wrapper H L opts originalFn fs self args)"
    using assms(2) by (simp add: after_events_def settles_thenable)
  then show ?thesis
    unfolding wrapper_capture [OF assms(1)]
    using capture_thenable by fastforce
qed

section \<open>Lemmas on a replaying call\<close>

lemma wrapper_replay:
  assumes "mode opts \<noteq> Some ''live''" and "mode opts \<noteq> Some ''capture''"
  shows "wrapper H L opts originalFn fs self args =
           replay L (fixture_path L opts (argumentSerializer opts args))
             (argumentSerializer opts args) self
             \<lparr>result = Returned JUndefined, actions = [], deferred = [], reads = [], files = fs,
              wrappedCallData = [(''callArgs'', Some (FStr (argumentSerializer opts args)))],
              origCallback = (if args \<noteq> [] \<and> is_callable (last args)
                              then snd (callbackSwap opts self args JProxy) else JUndefined),
              proxy = (args \<noteq> [] \<and> is_callable (last args)), handlers = False, thenable = False\<rparr>"
proof (cases "args \<noteq> [] \<and> is_callable (last args)")
  case True
  obtain args' cb where sw: "callbackSwap opts self args JProxy = (args', cb)"
    by (cases "callbackSwap opts self args JProxy")
  show ?thesis using assms True sw by (simp add: wrapper_def Let_def)
next
  case False
  show ?thesis using assms False by (auto simp: wrapper_def Let_def)
qed

lemma replay_keeps:
  "actions (replay L p a self r0) = actions r0 \<and> files (replay L p a self r0) = files r0"
proof (cases "files r0 p")
  case (Fixture cannedJson)
  then show ?thesis
    by (cases "JSON_parse L (map_of cannedJson ''returnValue'')") (simp_all add: replay_def Let_def)
qed (simp_all add: replay_def Let_def)

lemma replay_fixture:
  assumes "files r0 p = Fixture cannedJson" and "deferred r0 = []"
  shows "(truthy_f (map_of cannedJson ''callbackArgs'') \<longrightarrow>
            DeliverCallback (origCallback r0) self (map_of cannedJson ''callbackArgs'')
              \<in> set (deferred (replay L p a self r0)))
       \<and> (truthy_f (map_of cannedJson ''returnedPromise'') \<longrightarrow>
            result (replay L p a self r0) = ReturnedFuture
            \<and> SettleFuture self (map_of cannedJson ''promiseResolutionArgs'')
                 (map_of cannedJson ''promiseRejectionArgs'') \<in> set (deferred (replay L p a self r0)))"
  using assms
  by (cases "JSON_parse L (map_of cannedJson ''returnValue'')") (simp_all add: replay_def Let_def)

section \<open>The default serializers return text\<close>

lemma fresh_above: "a \<in> fst ` set H \<Longrightarrow> a < fresh H"
proof -
  have ge: "m \<le> fold max xs m" for xs :: "nat list" and m
    by (induction xs arbitrary: m) (auto intro: order_trans [OF max.cobounded2])
  have "a \<in> set xs \<Longrightarrow> a \<le> fold max xs m" for xs :: "nat list" and m
  proof (induction xs arbitrary: m)
    case Nil
    then show ?case by simp
  next
    case (Cons x xs)
    show ?case
    proof (cases "a = x")
      case True
      have "x \<le> max x m" by simp
      also have "\<dots> \<le> fold max xs (max x m)" by (rule ge)
      finally show ?thesis using True by simp
    next
      case False
      with Cons.prems have "a \<in> set xs" by simp
      then show ?thesis using Cons.IH by simp
    qed
  qed
  moreover assume "a \<in> fst ` set H"
  ultimately have "a \<le> fold max (map fst H) 0" by simp
  then show ?thesis by (simp add: fresh_def)
qed

lemma fresh_unused: "map_of H (fresh H) = None"
proof (rule ccontr)
  assume "map_of H (fresh H) \<noteq> None"
  then obtain c where "map_of H (fresh H) = Some c" by auto
  then have "(fresh H, c) \<in> set H" by (rule map_of_SomeD)
  then have "fresh H \<in> fst ` set H" by force
  then have "fresh H < fresh H" by (rule fresh_above)
  then show False by simp
qed

lemma val_ok_extend:
  assumes "val_ok H x" and "map_of H a = None"
  shows "val_ok ((a, c) # H) x"
  using assms
  by (auto simp: val_ok_def has_toJSON_def toJSON_of_def split: jv.splits option.splits hcell.splits)

lemma heap_ok_array:
  assumes "heap_ok H" and "\<forall>x \<in> set args. val_ok H x"
  shows "heap_ok ((fresh H, HArr args) # H) \<and> val_ok ((fresh H, HArr args) # H) (JRef (fresh H))"
proof -
  let ?H = "(fresh H, HArr args) # H"
  have un: "map_of H (fresh H) = None" by (rule fresh_unused)
  have old: "val_ok ?H x" if "val_ok H x" for x
    using that un by (rule val_ok_extend)
  have "val_ok ?H x" if "(k, x) \<in> set (members (HArr args))" for k x
  proof -
    from that have "x \<in> set args" by (auto simp: members_def dest: set_zip_rightD)
    with assms(2) show ?thesis by (simp add: old)
  qed
  moreover have "val_ok ?H x" if "(a, cell) \<in> set H" "(k, x) \<in> set (members cell)" for a cell k x
    using assms(1) that old unfolding heap_ok_def by blast
  ultimately have "heap_ok ?H" unfolding heap_ok_def by auto
  moreover have "val_ok ?H (JRef (fresh H))" by (simp add: val_ok_def has_toJSON_def toJSON_of_def)
  ultimately show ?thesis by simp
qed

lemma stringifySafe_args_text:
  assumes "heap_ok H" and "\<forall>x \<in> set args. val_ok H x"
  shows "\<exists>doc. stringifySafe ((fresh H, HArr args) # H) toJSON (JRef (fresh H)) None None
                 = Inr (Some (render doc))
              \<and> stringifySafe_args H toJSON args = render doc"
proof -
  let ?H = "(fresh H, HArr args) # H"
  have ok: "heap_ok ?H" "val_ok ?H (JRef (fresh H))"
    using heap_ok_array [OF assms] by simp_all
  have "stringifySafe_document ?H toJSON (JRef (fresh H)) None None = Inr (walk ?H [] [] (JRef (fresh H)))"
    using ok by (rule stringifySafe_document_walk)
  moreover have "\<exists>doc. walk ?H [] [] (JRef (fresh H)) = Some doc"
    by (subst walk.simps) simp
  then obtain doc where "walk ?H [] [] (JRef (fresh H)) = Some doc" by blast
  ultimately have "stringifySafe ?H toJSON (JRef (fresh H)) None None = Inr (Some (render doc))"
    by (simp add: stringifySafe_def stringifySafe_document_def JSON_stringify_def)
  then show ?thesis by (auto simp: stringifySafe_args_def)
qed

section \<open>Calls without a callback\<close>

text \<open>
  A capturing call without a callback whose method returns a value that is not future-like
  writes nothing, whatever happens later. One whose method returns a promise writes when the
  promise settles, and the replay of that fixture defers a settlement with what
  \<^verbatim>\<open>JSON.parse\<close> makes of the recorded text.
\<close>

lemma settle_idle:
  assumes "\<not> proxy r" and "\<not> handlers r"
  shows "foldl (settle opts p) r evs = r"
  using assms
  by (induction evs) (auto simp: settle_def split: event.splits)

lemma capture_sync_return_never_writes:
  assumes "mode opts = Some ''capture''"
    and "\<not> (args \<noteq> [] \<and> is_callable (last args))"
    and "completion (originalFn self args) = Return v"
    and "\<not> truthy_f (returnedPromise_of H v)"
    and "r = after_events L opts args (wrapper H L opts originalFn fs self args) evs"
  shows "result r = Returned v
       \<and> actions r = [CalledOriginal self args]
       \<and> files r = fs
       \<and> map_of (wrappedCallData r) ''returnValue''
           = Some (map_option FStr (returnValueSerializer opts v))"
proof -
  let ?w = "wrapper H L opts originalFn fs self args"
  have w: "result ?w = Returned v \<and> actions ?w = [CalledOriginal self args] \<and> files ?w = fs
        \<and> map_of (wrappedCallData ?w) ''returnValue''
             = Some (map_option FStr (returnValueSerializer opts v))
        \<and> \<not> proxy ?w \<and> \<not> handlers ?w"
    using assms(1-4) by (auto simp: wrapper_def capture_def Let_def map_of_assign)
  then have "foldl (settle opts (fixture_path L opts (argumentSerializer opts args))) ?w evs = ?w"
    by (intro settle_idle) simp_all
  then show ?thesis using w unfolding assms(5) after_events_def by simp
qed

lemma capture_then_replay_promise:
  assumes cap: "mode opts = Some ''capture''"
    and rep: "mode opts' = Some ''replay''"
    and same: "argumentSerializer opts' = argumentSerializer opts" "dir opts' = dir opts"
       "prefix opts' = prefix opts"
    and nocb: "\<not> (args \<noteq> [] \<and> is_callable (last args))"
    and ret: "completion (originalFn self args) = Return (JPromise n)"
    and nonempty: "responseSerializer opts [x] \<noteq> []"
    and c: "c = after_events L opts args (wrapper H L opts originalFn fs self args) [PromiseResolved x]"
    and r: "r = wrapper H L opts' originalFn' (files c) self args"
  shows "actions c = [CalledOriginal self args,
                      Wrote (fixture_path L opts (argumentSerializer opts args))
                        [(''callArgs'', FStr (argumentSerializer opts args)),
                         (''returnedPromise'', FBool True),
                         (''promiseResolutionArgs'', FStr (responseSerializer opts [x]))],
                      FutureResolved x]
       \<and> result r = ReturnedFuture \<and> actions r = []
       \<and> deferred r = [SettleFuture self (Some (FStr (responseSerializer opts [x]))) None]
       \<and> run_task L (SettleFuture self (Some (FStr (responseSerializer opts [x]))) None)
           = (case parse_text L (responseSerializer opts [x]) of
                None \<Rightarrow> Inl SyntaxError
              | Some v \<Rightarrow> (case arg_list L v of
                            None \<Rightarrow> Inl TypeError
                          | Some xs \<Rightarrow> Inr (FutureResolved (first_arg xs))))"
proof -
  let ?a = "argumentSerializer opts args"
  let ?p = "fixture_path L opts ?a"
  let ?doc = "[(''callArgs'', FStr ?a), (''returnedPromise'', FBool True),
               (''promiseResolutionArgs'', FStr (responseSerializer opts [x]))]"
  have p': "fixture_path L opts' (argumentSerializer opts' args) = ?p"
    using same by (simp add: fixture_path_def)
  have w: "actions c = [CalledOriginal self args, Wrote ?p ?doc, FutureResolved x]"
          "files c = fs(?p := Fixture ?doc)"
    unfolding c using cap nocb ret
    by (auto simp: after_events_def wrapper_def capture_def settle_def writeWrappedCallData_def
        returnedPromise_of_def truthy_def has_then_def then_callable_def truthy_f_def
        to_doc_def List.map_filter_simps Let_def)
  have m: "mode opts' \<noteq> Some ''live''" "mode opts' \<noteq> Some ''capture''" using rep by simp_all
  have "r = replay L ?p ?a self
             \<lparr>result = Returned JUndefined, actions = [], deferred = [], reads = [],
              files = fs(?p := Fixture ?doc),
              wrappedCallData = [(''callArgs'', Some (FStr ?a))],
              origCallback = JUndefined, proxy = False, handlers = False, thenable = False\<rparr>"
    unfolding r using m nocb same p' w(2)
    by (auto simp: wrapper_def Let_def)
  then have rr: "result r = ReturnedFuture \<and> actions r = []
       \<and> deferred r = [SettleFuture self (Some (FStr (responseSerializer opts [x]))) None]"
    by (simp add: replay_def truthy_f_def)
  have t: "run_task L (SettleFuture self (Some (FStr (responseSerializer opts [x]))) None)
           = (case parse_text L (responseSerializer opts [x]) of
                None \<Rightarrow> Inl SyntaxError
              | Some v \<Rightarrow> (case arg_list L v of
                            None \<Rightarrow> Inl TypeError
                          | Some xs \<Rightarrow> Inr (FutureResolved (first_arg xs))))"
    using nonempty
    by (simp add: run_task_def truthy_f_def JSON_parse_def to_text_def split: option.splits)
  show ?thesis using w(1) rr t by simp
qed

section \<open>Calls with a callback\<close>

text \<open>
  \<^verbatim>\<open>fetch(42, cb)\<close>, captured and then replayed. When the method returns 7 and calls back later
  with \<^verbatim>\<open>(null, 7)\<close>, the replay returns 7 and defers the same callback invocation. When the
  method returns nothing, the fixture has no \<^verbatim>\<open>returnValue\<close> member: the replay defers the
  callback and then throws the SyntaxError of \<^verbatim>\<open>JSON.parse(undefined)\<close> (line 179).
\<close>

lemma callback_round_trip_example:
  "result (wrapper sample_heap sample_lib (sample_options ''fetch'' ''replay'') (returns (JNum 7))
      (files (after_events sample_lib (sample_options ''fetch'' ''capture'') [JNum 42, JFun 0]
         (wrapper sample_heap sample_lib (sample_options ''fetch'' ''capture'') (returns (JNum 7))
            no_files JUndefined [JNum 42, JFun 0]) [CallbackFired [JNull, JNum 7]]))
      JUndefined [JNum 42, JFun 0]) = Returned (JNum 7)
   \<and> map (run_task sample_lib)
       (deferred (wrapper sample_heap sample_lib (sample_options ''fetch'' ''replay'') (returns (JNum 7))
         (files (after_events sample_lib (sample_options ''fetch'' ''capture'') [JNum 42, JFun 0]
           (wrapper sample_heap sample_lib (sample_options ''fetch'' ''capture'') (returns (JNum 7))
              no_files JUndefined [JNum 42, JFun 0]) [CallbackFired [JNull, JNum 7]]))
         JUndefined [JNum 42, JFun 0]))
     = [Inr (CalledBack (JFun 0) [JNull, JNum 7])]"
  by code_simp

lemma callback_returning_undefined_example:
  "written (actions (after_events sample_lib (sample_options ''fetch'' ''capture'') [JNum 42, JFun 0]
         (wrapper sample_heap sample_lib (sample_options ''fetch'' ''capture'') (returns JUndefined)
            no_files JUndefined [JNum 42, JFun 0]) [CallbackFired [JNull, JNum 7]]))
     = [[(''callArgs'', FStr ''[42,null]''), (''callbackArgs'', FStr ''[null,7]'')]]
   \<and> result (wrapper sample_heap sample_lib (sample_options ''fetch'' ''replay'') (returns JUndefined)
      (files (after_events sample_lib (sample_options ''fetch'' ''capture'') [JNum 42, JFun 0]
         (wrapper sample_heap sample_lib (sample_options ''fetch'' ''capture'') (returns JUndefined)
            no_files JUndefined [JNum 42, JFun 0]) [CallbackFired [JNull, JNum 7]]))
      JUndefined [JNum 42, JFun 0]) = Threw SyntaxError
   \<and> deferred (wrapper sample_heap sample_lib (sample_options ''fetch'' ''replay'') (returns JUndefined)
      (files (after_events sample_lib (sample_options ''fetch'' ''capture'') [JNum 42, JFun 0]
         (wrapper sample_heap sample_lib (sample_options ''fetch'' ''capture'') (returns JUndefined)
            no_files JUndefined [JNum 42, JFun 0]) [CallbackFired [JNull, JNum 7]]))
      JUndefined [JNum 42, JFun 0])
     = [DeliverCallback (JFun 0) JUndefined (Some (FStr ''[null,7]''))]"
  by code_simp

section \<open>Calls that return an object with a then method\<close>

text \<open>
  When the wrapped method returns an object of its own with a \<^verbatim>\<open>then\<close> method, the
  capturing call ends as \<^verbatim>\<open>returnValue.then(...).catch(...)\<close> does on that object: with a
  TypeError when \<^verbatim>\<open>then\<close> returns \<^verbatim>\<open>undefined\<close>. Such an object can call both handlers; the
  record then holds the resolution and the rejection.
\<close>

lemma then_callable_truthy:
  assumes "then_callable H v"
  shows "truthy_f (returnedPromise_of H v)"
proof (cases v)
  case (JPromise n)
  then show ?thesis by (simp add: returnedPromise_of_def truthy_f_def truthy_def has_then_def)
next
  case (JRef a)
  with assms obtain props t where c: "map_of H a = Some (HObj props)"
      "map_of props ''then'' = Some t" "is_callable t"
    by (auto simp: then_callable_def split: option.splits hcell.splits)
  from c(3) have "truthy t" by (cases t) (simp_all add: is_callable_def truthy_def)
  then show ?thesis using JRef c
    by (simp add: returnedPromise_of_def truthy_f_def truthy_def has_then_def)
qed (use assms in \<open>simp_all add: then_callable_def\<close>)

lemma capture_user_thenable:
  assumes "mode opts = Some ''capture''"
    and "\<not> (args \<noteq> [] \<and> is_callable (last args))"
    and "completion (originalFn self args) = Return v"
    and "user_thenable H v"
  shows "result (wrapper H L opts originalFn fs self args) = chained (originalFn self args)
       \<and> actions (wrapper H L opts originalFn fs self args) = [CalledOriginal self args]
       \<and> handlers (wrapper H L opts originalFn fs self args)
       \<and> thenable (wrapper H L opts originalFn fs self args)"
proof -
  have t: "then_callable H v" using assms(4) by (simp add: user_thenable_def)
  then have rp: "truthy_f (returnedPromise_of H v)" by (rule then_callable_truthy)
  let ?r0 = "\<lparr>result = Returned JUndefined, actions = [], deferred = [], reads = [], files = fs,
              wrappedCallData = [(''callArgs'', Some (FStr (argumentSerializer opts args)))],
              origCallback = JUndefined, proxy = False, handlers = False, thenable = False\<rparr>"
  have nc: "(args \<noteq> [] \<and> is_callable (last args)) = False" using assms(2) by blast
  have w: "wrapper H L opts originalFn fs self args =
           capture H opts (fixture_path L opts (argumentSerializer opts args)) originalFn self args ?r0"
    unfolding wrapper_capture [OF assms(1)] nc if_False ..
  define r2 where "r2 = (if proxy ?r0
                 then foldl (proxy_call opts (fixture_path L opts (argumentSerializer opts args)))
                        (?r0\<lparr>actions := actions ?r0 @ [CalledOriginal self args]\<rparr>)
                        (during (originalFn self args))
                 else ?r0\<lparr>actions := actions ?r0 @ [CalledOriginal self args]\<rparr>)"
  have r2: "actions r2 = [CalledOriginal self args]" by (simp add: r2_def)
  show ?thesis
    unfolding w capture_cases [where originalFn = originalFn and self = self and args = args
          and H = H, OF r2_def]
    using assms(3,4) t rp r2 by simp
qed

lemma user_thenable_example:
  "result (wrapper then_heap sample_lib (sample_options ''fetch'' ''capture'')
       (returns_thenable (Threw TypeError)) no_files JUndefined [JNum 1]) = Threw TypeError
   \<and> written (actions (after_events sample_lib (sample_options ''fetch'' ''capture'') [JNum 1]
        (wrapper then_heap sample_lib (sample_options ''fetch'' ''capture'')
           (returns_thenable (Returned JUndefined)) no_files JUndefined [JNum 1])
        [PromiseResolved (JNum 7), PromiseRejected (JNum 7)]))
     = [[(''callArgs'', FStr ''[1]''), (''returnedPromise'', FBool True),
         (''promiseResolutionArgs'', FStr ''[7]'')],
        [(''callArgs'', FStr ''[1]''), (''returnedPromise'', FBool True),
         (''promiseResolutionArgs'', FStr ''[7]''), (''promiseRejectionArgs'', FStr ''[7]'')]]"
  by code_simp

section \<open>The claims on the wrapper\<close>

text \<open>
  C1. Capture-then-replay round trip. The source does not keep it for a call whose
  outcome is a plain synchronous return: capturing \<^verbatim>\<open>add(1)\<close>, which returns 5, writes no
  fixture, and replaying the same call with the same configuration throws the missing-fixture
  error where the claim promises the return value 5.
\<close>

theorem capture_then_replay_sync_return:
  "result (wrapper sample_heap sample_lib (sample_options ''add'' ''replay'') (returns (JNum 5))
      (files (after_events sample_lib (sample_options ''add'' ''capture'') [JNum 1]
         (wrapper sample_heap sample_lib (sample_options ''add'' ''capture'') (returns (JNum 5))
            no_files JUndefined [JNum 1]) []))
      JUndefined [JNum 1])
   = Threw (Error (getNiceError ''/tmp/x/add-080a9ed42855.json'' ''[1]''))"
  by code_simp

text \<open>
  C2. In capture mode every settle event writes the accumulated record. The source
  does not do so for a synchronous return: capturing \<^verbatim>\<open>add(1)\<close>, which returns 5, records
  \<^verbatim>\<open>returnValue\<close> in the record in memory (line 145), writes nothing, and leaves no
  fixture file behind.
\<close>

theorem sync_return_is_not_persisted:
  "actions (after_events sample_lib (sample_options ''add'' ''capture'') [JNum 1]
      (wrapper sample_heap sample_lib (sample_options ''add'' ''capture'') (returns (JNum 5))
         no_files JUndefined [JNum 1]) [])
     = [CalledOriginal JUndefined [JNum 1]]
   \<and> result (wrapper sample_heap sample_lib (sample_options ''add'' ''capture'') (returns (JNum 5))
         no_files JUndefined [JNum 1]) = Returned (JNum 5)
   \<and> wrappedCallData (wrapper sample_heap sample_lib (sample_options ''add'' ''capture'')
         (returns (JNum 5)) no_files JUndefined [JNum 1])
     = [(''callArgs'', Some (FStr ''[1]'')), (''returnedPromise'', Some (FBool False)),
        (''returnValue'', Some (FStr ''5''))]
   \<and> files (after_events sample_lib (sample_options ''add'' ''capture'') [JNum 1]
      (wrapper sample_heap sample_lib (sample_options ''add'' ''capture'') (returns (JNum 5))
         no_files JUndefined [JNum 1]) []) ''/tmp/x/add-080a9ed42855.json'' = Absent"
  by code_simp

text \<open>
  C3. (as amended) Every record a capturing call persists holds \<^verbatim>\<open>callArgs\<close> and
  populates at least one outcome group: the callback arguments, the settlement data of a
  future-like result, or the synchronous return value. The settlement data and the return
  value never stand together: a record with \<^verbatim>\<open>returnValue\<close> has neither
  \<^verbatim>\<open>promiseResolutionArgs\<close> nor \<^verbatim>\<open>promiseRejectionArgs\<close> nor a truthy \<^verbatim>\<open>returnedPromise\<close>,
  and one with settlement data has \<^verbatim>\<open>returnedPromise\<close> true. When the wrapped method never
  returns an object of its own with a \<^verbatim>\<open>then\<close> method (its future-like results are promises),
  a record never holds both the resolution and the rejection. The callback arguments are not
  exclusive of the other two groups.
\<close>

theorem capture_outcome_groups:
  assumes "mode opts = Some ''capture''"
    and "Wrote p d \<in> set (actions (after_events L opts args
            (wrapper H L opts originalFn fs self args) evs))"
  shows "''callArgs'' \<in> fst ` set d
       \<and> (''callbackArgs'' \<in> fst ` set d \<or> ''promiseResolutionArgs'' \<in> fst ` set d
            \<or> ''promiseRejectionArgs'' \<in> fst ` set d \<or> ''returnValue'' \<in> fst ` set d)
       \<and> \<not> (''returnValue'' \<in> fst ` set d
              \<and> (''promiseResolutionArgs'' \<in> fst ` set d \<or> ''promiseRejectionArgs'' \<in> fst ` set d
                   \<or> truthy_f (map_of d ''returnedPromise'')))
       \<and> (''promiseResolutionArgs'' \<in> fst ` set d \<or> ''promiseRejectionArgs'' \<in> fst ` set d
            \<longrightarrow> map_of d ''returnedPromise'' = Some (FBool True))
       \<and> ((\<forall>s a v. completion (originalFn s a) = Return v \<longrightarrow> \<not> user_thenable H v)
            \<longrightarrow> \<not> (''promiseResolutionArgs'' \<in> fst ` set d
                    \<and> ''promiseRejectionArgs'' \<in> fst ` set d))"
proof -
  let ?a = "argumentSerializer opts args"
  let ?r = "after_events L opts args (wrapper H L opts originalFn fs self args) evs"
  have "capture_inv fs ?a (fixture_path L opts ?a) ?r"
    using assms(1) by (rule capture_run_inv)
  with assms(2) have "good_write ?a d" unfolding capture_inv_def by simp
  then have "map_of d ''callArgs'' = Some (FStr ?a)" by (simp add: good_write_def)
  then have "(''callArgs'', FStr ?a) \<in> set d" by (rule map_of_SomeD)
  then have c: "''callArgs'' \<in> fst ` set d" by force
  have "outcome_inv ?r" using assms(1) by (rule capture_run_outcome)
  with assms(2) have g: "groups_ok (thenable ?r) d" unfolding outcome_inv_def by blast
  have t: "\<not> thenable ?r"
    if "\<forall>s a v. completion (originalFn s a) = Return v \<longrightarrow> \<not> user_thenable H v"
    using capture_run_thenable [OF assms(1), of L args H originalFn fs self evs] that by blast
  show ?thesis
    using c g t unfolding groups_ok_def by blast
qed

text \<open>
  The witness: a method called as \<^verbatim>\<open>fetch(1)\<close> that returns a promise, which is rejected
  with 7; a resolution after that runs no handler.
\<close>

theorem capture_outcome_groups_witness:
  "Wrote ''/tmp/x/fetch-080a9ed42855.json''
      [(''callArgs'', FStr ''[1]''), (''returnedPromise'', FBool True),
       (''promiseRejectionArgs'', FStr ''[7]'')]
     \<in> set (actions (after_events sample_lib (sample_options ''fetch'' ''capture'') [JNum 1]
          (wrapper sample_heap sample_lib (sample_options ''fetch'' ''capture'') (returns (JPromise 0))
             no_files JUndefined [JNum 1])
          [PromiseRejected (JNum 7), PromiseResolved (JNum 7)]))
   \<and> written (actions (after_events sample_lib (sample_options ''fetch'' ''capture'') [JNum 1]
          (wrapper sample_heap sample_lib (sample_options ''fetch'' ''capture'') (returns (JPromise 0))
             no_files JUndefined [JNum 1])
          [PromiseRejected (JNum 7), PromiseResolved (JNum 7)]))
       = [[(''callArgs'', FStr ''[1]''), (''returnedPromise'', FBool True),
           (''promiseRejectionArgs'', FStr ''[7]'')]]
   \<and> ''callArgs'' \<in> fst ` set [(''callArgs'', FStr ''[1]''), (''returnedPromise'', FBool True),
       (''promiseRejectionArgs'', FStr ''[7]'')]
   \<and> ''returnValue'' \<notin> fst ` set [(''callArgs'', FStr ''[1]''), (''returnedPromise'', FBool True),
       (''promiseRejectionArgs'', FStr ''[7]'')]
   \<and> \<not> (''promiseResolutionArgs'' \<in> fst ` set [(''callArgs'', FStr ''[1]''),
           (''returnedPromise'', FBool True), (''promiseRejectionArgs'', FStr ''[7]'')]
         \<and> ''promiseRejectionArgs'' \<in> fst ` set [(''callArgs'', FStr ''[1]''),
           (''returnedPromise'', FBool True), (''promiseRejectionArgs'', FStr ''[7]'')])"
proof -
  let ?opts = "sample_options ''fetch'' ''capture''"
  let ?doc = "[(''callArgs'', FStr ''[1]''), (''returnedPromise'', FBool True),
       (''promiseRejectionArgs'', FStr ''[7]'')]"
  let ?r = "after_events sample_lib ?opts [JNum 1]
          (wrapper sample_heap sample_lib ?opts (returns (JPromise 0)) no_files JUndefined [JNum 1])
          [PromiseRejected (JNum 7), PromiseResolved (JNum 7)]"
  have m: "mode ?opts = Some ''capture''"
    by (simp add: sample_options_def)
  have w: "Wrote ''/tmp/x/fetch-080a9ed42855.json'' ?doc \<in> set (actions ?r)"
    by code_simp
  have ws: "written (actions ?r) = [?doc]"
    by code_simp
  have n: "\<forall>s a v. completion (returns (JPromise 0) s a) = Return v \<longrightarrow> \<not> user_thenable sample_heap v"
    by (simp add: returns_def user_thenable_def)
  from capture_outcome_groups [OF m w] n w ws show ?thesis by simp
qed

text \<open>
  The claim as stated fails on two calls of \<^verbatim>\<open>fetch(42, cb)\<close>. When the method returns 7
  and calls back later, the persisted record holds the callback arguments and the
  synchronous return value at once; when it returns a promise, calls back and the promise is
  resolved, the record holds the callback arguments and the settlement data at once.
\<close>

theorem outcome_groups_counterexample:
  "actions (after_events sample_lib (sample_options ''fetch'' ''capture'') [JNum 42, JFun 0]
          (wrapper sample_heap sample_lib (sample_options ''fetch'' ''capture'') (returns (JNum 7))
             no_files JUndefined [JNum 42, JFun 0])
          [CallbackFired [JNull, JNum 7]])
   = [CalledOriginal JUndefined [JNum 42, JProxy],
      Wrote ''/tmp/x/fetch-11e6a435235a.json''
        [(''callArgs'', FStr ''[42,null]''), (''returnedPromise'', FBool False),
         (''returnValue'', FStr ''7''), (''callbackArgs'', FStr ''[null,7]'')],
      CalledBack (JFun 0) [JNull, JNum 7]]
   \<and> actions (after_events sample_lib (sample_options ''fetch'' ''capture'') [JNum 42, JFun 0]
          (wrapper sample_heap sample_lib (sample_options ''fetch'' ''capture'') (returns (JPromise 0))
             no_files JUndefined [JNum 42, JFun 0])
          [CallbackFired [JNull, JNum 7], PromiseResolved (JNum 7)])
   = [CalledOriginal JUndefined [JNum 42, JProxy],
      Wrote ''/tmp/x/fetch-11e6a435235a.json''
        [(''callArgs'', FStr ''[42,null]''), (''returnedPromise'', FBool True),
         (''callbackArgs'', FStr ''[null,7]'')],
      CalledBack (JFun 0) [JNull, JNum 7],
      Wrote ''/tmp/x/fetch-11e6a435235a.json''
        [(''callArgs'', FStr ''[42,null]''), (''returnedPromise'', FBool True),
         (''callbackArgs'', FStr ''[null,7]''), (''promiseResolutionArgs'', FStr ''[7]'')],
      FutureResolved (JNum 7)]"
  by code_simp

text \<open>
  C4. (as amended) Every write of a capturing call goes to the path that
  \<^verbatim>\<open>path.join\<close> makes of the directory and of the prefix, a hyphen, the fingerprint and
  \<^verbatim>\<open>.json\<close>, the fingerprint being the first 12 characters of the hexadecimal SHA-256 digest
  of the serialized call arguments, with a record that holds \<^verbatim>\<open>callArgs\<close> (the serialized
  arguments) and whose members are among \<^verbatim>\<open>callArgs\<close>, \<^verbatim>\<open>callbackArgs\<close>,
  \<^verbatim>\<open>returnedPromise\<close>, \<^verbatim>\<open>promiseResolutionArgs\<close>, \<^verbatim>\<open>promiseRejectionArgs\<close> and
  \<^verbatim>\<open>returnValue\<close>; the file then holds the latest record, and no other path is touched. The
  path depends on the arguments through their serialization only.
\<close>

theorem capture_fixture_file:
  assumes "mode opts = Some ''capture''"
    and "argStr = argumentSerializer opts args"
    and "r = after_events L opts args (wrapper H L opts originalFn fs self args) evs"
    and "filepath = path_join L (dir opts)
                      (prefix opts @ ''-'' @ take 12 (sha256_hex L argStr) @ ''.json'')"
  shows "(\<forall>p d. Wrote p d \<in> set (actions r) \<longrightarrow>
            p = filepath
          \<and> map_of d ''callArgs'' = Some (FStr argStr)
          \<and> fst ` set d \<subseteq> {''callArgs'', ''callbackArgs'', ''returnedPromise'',
                ''promiseResolutionArgs'', ''promiseRejectionArgs'', ''returnValue''})
       \<and> files r = (if written (actions r) = [] then fs
                     else fs(filepath := Fixture (last (written (actions r)))))"
proof -
  have p: "filepath = fixture_path L opts argStr"
    using assms(4) by (simp add: fixture_path_def HASH_LENGTH_def)
  have "capture_inv fs argStr filepath r"
    unfolding p assms(2) assms(3) using assms(1) by (rule capture_run_inv)
  then show ?thesis
    unfolding capture_inv_def good_write_def fixture_keys_def by simp
qed

text \<open>
  The witness: a method called as \<^verbatim>\<open>fetch(1)\<close> that returns a promise, later resolved
  with 7.
\<close>

theorem capture_fixture_file_witness:
  "Wrote ''/tmp/x/fetch-080a9ed42855.json''
        [(''callArgs'', FStr ''[1]''), (''returnedPromise'', FBool True),
         (''promiseResolutionArgs'', FStr ''[7]'')]
     \<in> set (actions (after_events sample_lib (sample_options ''fetch'' ''capture'') [JNum 1]
          (wrapper sample_heap sample_lib (sample_options ''fetch'' ''capture'') (returns (JPromise 0))
             no_files JUndefined [JNum 1])
          [PromiseResolved (JNum 7)]))
   \<and> ''/tmp/x/fetch-080a9ed42855.json''
       = path_join sample_lib (dir (sample_options ''fetch'' ''capture''))
           (prefix (sample_options ''fetch'' ''capture'') @ ''-''
              @ take 12 (sha256_hex sample_lib ''[1]'') @ ''.json'')"
proof -
  let ?opts = "sample_options ''fetch'' ''capture''"
  let ?r = "after_events sample_lib ?opts [JNum 1]
          (wrapper sample_heap sample_lib ?opts (returns (JPromise 0)) no_files JUndefined [JNum 1])
          [PromiseResolved (JNum 7)]"
  have m: "mode ?opts = Some ''capture''" by (simp add: sample_options_def)
  have a: "''[1]'' = argumentSerializer ?opts [JNum 1]" by code_simp
  have w: "Wrote ''/tmp/x/fetch-080a9ed42855.json''
        [(''callArgs'', FStr ''[1]''), (''returnedPromise'', FBool True),
         (''promiseResolutionArgs'', FStr ''[7]'')] \<in> set (actions ?r)"
    by code_simp
  from capture_fixture_file [OF m a refl refl, where H = sample_heap and L = sample_lib
      and originalFn = "returns (JPromise 0)" and fs = no_files and self = JUndefined
      and evs = "[PromiseResolved (JNum 7)]"] w
  show ?thesis by blast
qed

text \<open>
  The claim as stated fails on that call: the record has the members
  \<^verbatim>\<open>returnedPromise\<close> and \<^verbatim>\<open>promiseResolutionArgs\<close>, which are not names of the
  specification's schema.
\<close>

theorem fixture_schema_counterexample:
  "actions (after_events sample_lib (sample_options ''fetch'' ''capture'') [JNum 1]
          (wrapper sample_heap sample_lib (sample_options ''fetch'' ''capture'') (returns (JPromise 0))
             no_files JUndefined [JNum 1])
          [PromiseResolved (JNum 7)])
   = [CalledOriginal JUndefined [JNum 1],
      Wrote ''/tmp/x/fetch-080a9ed42855.json''
        [(''callArgs'', FStr ''[1]''), (''returnedPromise'', FBool True),
         (''promiseResolutionArgs'', FStr ''[7]'')],
      FutureResolved (JNum 7)]
   \<and> ''returnedPromise'' \<notin> {''callArgs'', ''callbackArgs'', ''returnedDeferred'', ''resolutionArgs'',
          ''rejectionArgs'', ''returnValue''}
   \<and> ''promiseResolutionArgs'' \<notin> {''callArgs'', ''callbackArgs'', ''returnedDeferred'',
          ''resolutionArgs'', ''rejectionArgs'', ''returnValue''}"
  by code_simp

text \<open>
  C5. In replay mode (any mode but live and capture), a call whose fixture file is
  absent throws, before anything is deferred, an Error whose message is the header, the
  quoted fixture path, the serialized-arguments label, the serialized call arguments and the
  footer; a read failure with another code is thrown as it is.
\<close>

theorem replay_missing_fixture:
  assumes "mode opts \<noteq> Some ''live''" and "mode opts \<noteq> Some ''capture''"
    and "argStr = argumentSerializer opts args" and "filepath = fixture_path L opts argStr"
    and "r = wrapper H L opts originalFn fs self args"
  shows "(fs filepath = Absent \<longrightarrow>
            result r =
              Threw (Error (NICE_ERR_HEADER @ '' '' @ [CHR 0x22] @ filepath @ [CHR 0x22]
                @ [CHR 0x0A, CHR 0x0A] @ NICE_ERR_SERIALIZATION_DESCRIPTOR @ '':'' @ [CHR 0x0A]
                @ argStr @ [CHR 0x0A, CHR 0x0A] @ NICE_ERR_FOOTER))
          \<and> deferred r = [] \<and> actions r = [])
       \<and> (\<forall>code. fs filepath = Unreadable code \<and> code \<noteq> ''ENOENT'' \<longrightarrow>
            result r = Threw (SysError code) \<and> deferred r = [] \<and> actions r = [])"
proof -
  have r: "r = replay L filepath argStr self
             \<lparr>result = Returned JUndefined, actions = [], deferred = [], reads = [], files = fs,
              wrappedCallData = [(''callArgs'', Some (FStr argStr))],
              origCallback = (if args \<noteq> [] \<and> is_callable (last args)
                              then snd (callbackSwap opts self args JProxy) else JUndefined),
              proxy = (args \<noteq> [] \<and> is_callable (last args)), handlers = False, thenable = False\<rparr>"
    unfolding assms(3,4,5) using assms(1,2) by (rule wrapper_replay)
  show ?thesis
    unfolding r by (simp add: replay_def getNiceError_def)
qed

theorem replay_missing_fixture_witness:
  "no_files ''/tmp/x/add-080a9ed42855.json'' = Absent
   \<and> result (wrapper sample_heap sample_lib (sample_options ''add'' ''replay'') (returns (JNum 5))
        no_files JUndefined [JNum 1])
     = Threw (Error (NICE_ERR_HEADER @ '' '' @ [CHR 0x22] @ ''/tmp/x/add-080a9ed42855.json''
          @ [CHR 0x22] @ [CHR 0x0A, CHR 0x0A] @ NICE_ERR_SERIALIZATION_DESCRIPTOR @ '':''
          @ [CHR 0x0A] @ ''[1]'' @ [CHR 0x0A, CHR 0x0A] @ NICE_ERR_FOOTER))
   \<and> deferred (wrapper sample_heap sample_lib (sample_options ''add'' ''replay'') (returns (JNum 5))
        no_files JUndefined [JNum 1]) = []"
proof -
  let ?opts = "sample_options ''add'' ''replay''"
  have m1: "mode ?opts \<noteq> Some ''live''" by (simp add: sample_options_def)
  have m2: "mode ?opts \<noteq> Some ''capture''" by (simp add: sample_options_def)
  have a: "''[1]'' = argumentSerializer ?opts [JNum 1]" by code_simp
  have p: "''/tmp/x/add-080a9ed42855.json'' = fixture_path sample_lib ?opts ''[1]''" by code_simp
  have f: "no_files ''/tmp/x/add-080a9ed42855.json'' = Absent" by (simp add: no_files_def)
  from replay_missing_fixture [OF m1 m2 a p refl, where H = sample_heap
      and originalFn = "returns (JNum 5)" and fs = no_files and self = JUndefined] f
  show ?thesis by simp
qed

text \<open>
  C6. In replay mode the wrapper performs no action during the call (it neither calls
  the wrapped method nor the callback, and settles no promise), its result does not depend
  on the wrapped method, and for a fixture with truthy \<^verbatim>\<open>callbackArgs\<close> the callback delivery,
  for one with truthy \<^verbatim>\<open>returnedPromise\<close> the settlement of the returned promise, is among
  the closures deferred to \<^verbatim>\<open>process.nextTick\<close>.
\<close>

theorem replay_never_calls_original:
  assumes "mode opts \<noteq> Some ''live''" and "mode opts \<noteq> Some ''capture''"
    and "r = wrapper H L opts originalFn fs self args"
    and "cb = (if args \<noteq> [] \<and> is_callable (last args)
               then snd (callbackSwap opts self args JProxy) else JUndefined)"
  shows "actions r = []
       \<and> files r = fs
       \<and> r = wrapper H L opts originalFn' fs self args
       \<and> (\<forall>cannedJson.
            fs (fixture_path L opts (argumentSerializer opts args)) = Fixture cannedJson \<longrightarrow>
              (truthy_f (map_of cannedJson ''callbackArgs'') \<longrightarrow>
                 DeliverCallback cb self (map_of cannedJson ''callbackArgs'') \<in> set (deferred r))
            \<and> (truthy_f (map_of cannedJson ''returnedPromise'') \<longrightarrow>
                 result r = ReturnedFuture
                 \<and> SettleFuture self (map_of cannedJson ''promiseResolutionArgs'')
                      (map_of cannedJson ''promiseRejectionArgs'') \<in> set (deferred r)))"
proof -
  let ?a = "argumentSerializer opts args"
  let ?p = "fixture_path L opts ?a"
  let ?r0 = "\<lparr>result = Returned JUndefined, actions = [], deferred = [], reads = [], files = fs,
              wrappedCallData = [(''callArgs'', Some (FStr ?a))],
              origCallback = cb,
              proxy = (args \<noteq> [] \<and> is_callable (last args)), handlers = False, thenable = False\<rparr>"
  have r: "r = replay L ?p ?a self ?r0"
    unfolding assms(3) assms(4) using assms(1,2) by (rule wrapper_replay)
  have same: "r = wrapper H L opts originalFn' fs self args"
    unfolding r assms(4) using assms(1,2) by (rule wrapper_replay [symmetric])
  have keeps: "actions r = [] \<and> files r = fs"
    unfolding r using replay_keeps [of L ?p ?a self ?r0] by simp
  have later: "(truthy_f (map_of cannedJson ''callbackArgs'') \<longrightarrow>
                 DeliverCallback cb self (map_of cannedJson ''callbackArgs'') \<in> set (deferred r))
            \<and> (truthy_f (map_of cannedJson ''returnedPromise'') \<longrightarrow>
                 result r = ReturnedFuture
                 \<and> SettleFuture self (map_of cannedJson ''promiseResolutionArgs'')
                      (map_of cannedJson ''promiseRejectionArgs'') \<in> set (deferred r))"
    if "fs ?p = Fixture cannedJson" for cannedJson
    unfolding r using replay_fixture [of ?r0 ?p cannedJson self L ?a] that by simp
  show ?thesis using same keeps later by blast
qed

theorem replay_never_calls_original_witness:
  "mode (sample_options ''fetch'' ''replay'') \<noteq> Some ''live''
   \<and> actions (wrapper sample_heap sample_lib (sample_options ''fetch'' ''replay'') (returns (JNum 7))
        (no_files(''/tmp/x/fetch-11e6a435235a.json'' :=
           Fixture [(''callArgs'', FStr ''[42,null]''), (''callbackArgs'', FStr ''[null,7]''),
                    (''returnedPromise'', FBool True), (''promiseResolutionArgs'', FStr ''[null,7]'')]))
        JUndefined [JNum 42, JFun 0]) = []
   \<and> DeliverCallback (JFun 0) JUndefined (Some (FStr ''[null,7]''))
       \<in> set (deferred (wrapper sample_heap sample_lib (sample_options ''fetch'' ''replay'')
        (returns (JNum 7))
        (no_files(''/tmp/x/fetch-11e6a435235a.json'' :=
           Fixture [(''callArgs'', FStr ''[42,null]''), (''callbackArgs'', FStr ''[null,7]''),
                    (''returnedPromise'', FBool True), (''promiseResolutionArgs'', FStr ''[null,7]'')]))
        JUndefined [JNum 42, JFun 0]))
   \<and> result (wrapper sample_heap sample_lib (sample_options ''fetch'' ''replay'') (returns (JNum 7))
        (no_files(''/tmp/x/fetch-11e6a435235a.json'' :=
           Fixture [(''callArgs'', FStr ''[42,null]''), (''callbackArgs'', FStr ''[null,7]''),
                    (''returnedPromise'', FBool True), (''promiseResolutionArgs'', FStr ''[null,7]'')]))
        JUndefined [JNum 42, JFun 0]) = ReturnedFuture"
proof -
  let ?opts = "sample_options ''fetch'' ''replay''"
  let ?doc = "[(''callArgs'', FStr ''[42,null]''), (''callbackArgs'', FStr ''[null,7]''),
                    (''returnedPromise'', FBool True), (''promiseResolutionArgs'', FStr ''[null,7]'')]"
  let ?fs = "no_files(''/tmp/x/fetch-11e6a435235a.json'' := Fixture ?doc)"
  have m1: "mode ?opts \<noteq> Some ''live''" by (simp add: sample_options_def)
  have m2: "mode ?opts \<noteq> Some ''capture''" by (simp add: sample_options_def)
  have cb: "JFun 0 = (if [JNum 42, JFun 0] \<noteq> [] \<and> is_callable (last [JNum 42, JFun 0])
               then snd (callbackSwap ?opts JUndefined [JNum 42, JFun 0] JProxy) else JUndefined)"
    by code_simp
  have f: "?fs (fixture_path sample_lib ?opts (argumentSerializer ?opts [JNum 42, JFun 0])) = Fixture ?doc"
    by code_simp
  have t1: "truthy_f (map_of ?doc ''callbackArgs'')" by code_simp
  have t2: "truthy_f (map_of ?doc ''returnedPromise'')" by code_simp
  have c: "map_of ?doc ''callbackArgs'' = Some (FStr ''[null,7]'')" by simp
  from replay_never_calls_original [OF m1 m2 refl cb, where H = sample_heap and L = sample_lib
      and originalFn = "returns (JNum 7)" and fs = ?fs] f t1 t2 c m1
  show ?thesis by auto
qed

text \<open>
  C7. (as amended) In replay mode, when the fixture's \<^verbatim>\<open>returnedPromise\<close> is truthy and
  its \<^verbatim>\<open>promiseResolutionArgs\<close> and \<^verbatim>\<open>promiseRejectionArgs\<close> are absent or falsy, the call
  returns a promise, and the deferred closure rejects it with an Error carrying the fixed
  message.
\<close>

theorem replay_unsettled_promise:
  assumes "mode opts \<noteq> Some ''live''" and "mode opts \<noteq> Some ''capture''"
    and "fs (fixture_path L opts (argumentSerializer opts args)) = Fixture cannedJson"
    and "truthy_f (map_of cannedJson ''returnedPromise'')"
    and "\<not> truthy_f (map_of cannedJson ''promiseResolutionArgs'')"
    and "\<not> truthy_f (map_of cannedJson ''promiseRejectionArgs'')"
    and "r = wrapper H L opts originalFn fs self args"
  shows "result r = ReturnedFuture
       \<and> actions r = []
       \<and> deferred r \<noteq> []
       \<and> run_task L (last (deferred r)) = Inr (FutureRejectedError
            ''easy-fix retained no resolution/rejection arguments for this wrapped promise'')"
  using assms
  by (auto simp: wrapper_def replay_def run_task_def NICE_ERR_PROMISE_def Let_def split: prod.splits)

theorem replay_unsettled_promise_witness:
  "truthy_f (map_of [(''callArgs'', FStr ''[1]''), (''returnedPromise'', FBool True)] ''returnedPromise'')
   \<and> result (wrapper sample_heap sample_lib (sample_options ''fetch'' ''replay'') (returns JUndefined)
      (no_files(''/tmp/x/fetch-080a9ed42855.json'' :=
         Fixture [(''callArgs'', FStr ''[1]''), (''returnedPromise'', FBool True)]))
      JUndefined [JNum 1]) = ReturnedFuture
   \<and> run_task sample_lib (last (deferred
        (wrapper sample_heap sample_lib (sample_options ''fetch'' ''replay'') (returns JUndefined)
      (no_files(''/tmp/x/fetch-080a9ed42855.json'' :=
         Fixture [(''callArgs'', FStr ''[1]''), (''returnedPromise'', FBool True)]))
      JUndefined [JNum 1])))
      = Inr (FutureRejectedError
            ''easy-fix retained no resolution/rejection arguments for this wrapped promise'')"
proof -
  let ?opts = "sample_options ''fetch'' ''replay''"
  let ?doc = "[(''callArgs'', FStr ''[1]''), (''returnedPromise'', FBool True)]"
  let ?fs = "no_files(''/tmp/x/fetch-080a9ed42855.json'' := Fixture ?doc)"
  have m1: "mode ?opts \<noteq> Some ''live''" by (simp add: sample_options_def)
  have m2: "mode ?opts \<noteq> Some ''capture''" by (simp add: sample_options_def)
  have f: "?fs (fixture_path sample_lib ?opts (argumentSerializer ?opts [JNum 1])) = Fixture ?doc"
    by code_simp
  have t1: "truthy_f (map_of ?doc ''returnedPromise'')" by code_simp
  have t2: "\<not> truthy_f (map_of ?doc ''promiseResolutionArgs'')" by code_simp
  have t3: "\<not> truthy_f (map_of ?doc ''promiseRejectionArgs'')" by code_simp
  from replay_unsettled_promise [where opts = ?opts and fs = ?fs and L = sample_lib
      and args = "[JNum 1]" and cannedJson = ?doc and H = sample_heap
      and originalFn = "returns JUndefined" and self = JUndefined, OF m1 m2 f t1 t2 t3 refl] t1
  show ?thesis by simp
qed

text \<open>
  The claim as stated names the member \<^verbatim>\<open>returnedDeferred\<close>: on a fixture marked so the
  call does not return a promise, it throws the SyntaxError of \<^verbatim>\<open>JSON.parse(undefined)\<close>.
\<close>

theorem returnedDeferred_counterexample:
  "result (wrapper sample_heap sample_lib (sample_options ''fetch'' ''replay'') (returns JUndefined)
      (no_files(''/tmp/x/fetch-080a9ed42855.json'' :=
         Fixture [(''callArgs'', FStr ''[1]''), (''returnedDeferred'', FBool True)]))
      JUndefined [JNum 1]) = Threw SyntaxError
   \<and> deferred (wrapper sample_heap sample_lib (sample_options ''fetch'' ''replay'') (returns JUndefined)
      (no_files(''/tmp/x/fetch-080a9ed42855.json'' :=
         Fixture [(''callArgs'', FStr ''[1]''), (''returnedDeferred'', FBool True)]))
      JUndefined [JNum 1]) = []"
  by code_simp

text \<open>
  C8. In live mode, for every receiver and argument list, the call returns the value
  the wrapped method returns and throws the value it throws, on the same receiver and the
  same arguments (the caller's callback among them, not a recording one). The wrapper does
  nothing else: it reads no file, writes none and defers nothing. The run does not depend on
  the serializers, the other options, the library functions (the hash among them) or the
  heap, and not on what the file system holds.
\<close>

theorem live_passes_through:
  assumes "mode opts = Some ''live''"
  shows "(\<forall>v. completion (originalFn self args) = Return v \<longrightarrow>
            result (wrapper H L opts originalFn fs self args) = Returned v)
       \<and> (\<forall>e. completion (originalFn self args) = Throw e \<longrightarrow>
            result (wrapper H L opts originalFn fs self args) = Threw (Raised e))
       \<and> actions (wrapper H L opts originalFn fs self args) = [CalledOriginal self args]
       \<and> deferred (wrapper H L opts originalFn fs self args) = []
       \<and> reads (wrapper H L opts originalFn fs self args) = []
       \<and> files (wrapper H L opts originalFn fs self args) = fs
       \<and> wrapper H L opts originalFn fs self args
           = wrapper H' L' (opts'\<lparr>mode := Some ''live''\<rparr>) originalFn fs self args
       \<and> wrapper H L opts originalFn fs' self args
           = (wrapper H L opts originalFn fs self args)\<lparr>files := fs'\<rparr>"
  using assms by (simp add: wrapper_def outcome_of_def)

text \<open>
  The witness: \<^verbatim>\<open>fetch(42, cb)\<close> on a method that returns 7, and on one that throws the
  string \<^verbatim>\<open>boom\<close>.
\<close>

theorem live_passes_through_witness:
  "mode (sample_options ''fetch'' ''live'') = Some ''live''
   \<and> completion (returns (JNum 7) JUndefined [JNum 42, JFun 0]) = Return (JNum 7)
   \<and> result (wrapper sample_heap sample_lib (sample_options ''fetch'' ''live'') (returns (JNum 7))
         no_files JUndefined [JNum 42, JFun 0]) = Returned (JNum 7)
   \<and> actions (wrapper sample_heap sample_lib (sample_options ''fetch'' ''live'') (returns (JNum 7))
         no_files JUndefined [JNum 42, JFun 0]) = [CalledOriginal JUndefined [JNum 42, JFun 0]]
   \<and> reads (wrapper sample_heap sample_lib (sample_options ''fetch'' ''live'') (returns (JNum 7))
         no_files JUndefined [JNum 42, JFun 0]) = []
   \<and> completion (throws (JStr ''boom'') JUndefined [JNum 42, JFun 0]) = Throw (JStr ''boom'')
   \<and> result (wrapper sample_heap sample_lib (sample_options ''fetch'' ''live'')
         (throws (JStr ''boom'')) no_files JUndefined [JNum 42, JFun 0])
       = Threw (Raised (JStr ''boom''))"
proof -
  have m: "mode (sample_options ''fetch'' ''live'') = Some ''live''"
    by (simp add: sample_options_def)
  have r: "completion (returns (JNum 7) JUndefined [JNum 42, JFun 0]) = Return (JNum 7)"
    by (simp add: returns_def)
  have t: "completion (throws (JStr ''boom'') JUndefined [JNum 42, JFun 0]) = Throw (JStr ''boom'')"
    by (simp add: throws_def)
  from live_passes_through [OF m, of "returns (JNum 7)" JUndefined "[JNum 42, JFun 0]"
      sample_heap sample_lib no_files] r
  have a: "result (wrapper sample_heap sample_lib (sample_options ''fetch'' ''live'') (returns (JNum 7))
         no_files JUndefined [JNum 42, JFun 0]) = Returned (JNum 7)
     \<and> actions (wrapper sample_heap sample_lib (sample_options ''fetch'' ''live'') (returns (JNum 7))
         no_files JUndefined [JNum 42, JFun 0]) = [CalledOriginal JUndefined [JNum 42, JFun 0]]
     \<and> reads (wrapper sample_heap sample_lib (sample_options ''fetch'' ''live'') (returns (JNum 7))
         no_files JUndefined [JNum 42, JFun 0]) = []"
    by blast
  from live_passes_through [OF m, of "throws (JStr ''boom'')" JUndefined "[JNum 42, JFun 0]"
      sample_heap sample_lib no_files] t
  have b: "result (wrapper sample_heap sample_lib (sample_options ''fetch'' ''live'')
         (throws (JStr ''boom'')) no_files JUndefined [JNum 42, JFun 0])
       = Threw (Raised (JStr ''boom''))"
    by blast
  show ?thesis using m r t a b by simp
qed

text \<open>
  C10. When the options object has no \<^verbatim>\<open>dir\<close> member (or an empty one), the directory
  is \<^verbatim>\<open>test/data\<close>, and fixtures are looked up under it.
\<close>

theorem default_directory:
  assumes "dir_given g = None \<or> dir_given g = Some []"
  shows "\<exists>opts. wrapAsyncMethod_options H toJSON TEST_MODE method (Object g) = Inr opts
           \<and> dir opts = ''test/data''
           \<and> fixture_path L opts argStr =
               path_join L ''test/data''
                 (prefix opts @ ''-'' @ take 12 (sha256_hex L argStr) @ ''.json'')"
  using assms
  by (auto simp: wrapAsyncMethod_options_def or_else_def fixture_path_def HASH_LENGTH_def)

theorem default_directory_witness:
  "dir_given \<lparr>dir_given = None, prefix_given = None, mode_given = Some ''capture'',
       callbackSwap_given = None, argumentSerializer_given = None,
       responseSerializer_given = None, returnValueSerializer_given = None\<rparr> = None
   \<and> (\<exists>opts. wrapAsyncMethod_options sample_heap no_toJSON None ''fetch''
          (Object \<lparr>dir_given = None, prefix_given = None, mode_given = Some ''capture'',
             callbackSwap_given = None, argumentSerializer_given = None,
             responseSerializer_given = None, returnValueSerializer_given = None\<rparr>) = Inr opts
        \<and> dir opts = ''test/data''
        \<and> fixture_path sample_lib opts ''[1]'' = ''test/data/fetch-080a9ed42855.json'')"
proof -
  let ?g = "\<lparr>dir_given = None, prefix_given = None, mode_given = Some ''capture'',
       callbackSwap_given = None, argumentSerializer_given = None,
       responseSerializer_given = None, returnValueSerializer_given = None\<rparr>"
  have g: "dir_given ?g = None \<or> dir_given ?g = Some []" by simp
  from default_directory [OF g, of sample_heap no_toJSON None "''fetch''" sample_lib "''[1]''"]
  obtain opts where o: "wrapAsyncMethod_options sample_heap no_toJSON None ''fetch'' (Object ?g) = Inr opts"
     "dir opts = ''test/data''"
     "fixture_path sample_lib opts ''[1]'' =
               path_join sample_lib ''test/data''
                 (prefix opts @ ''-'' @ take 12 (sha256_hex sample_lib ''[1]'') @ ''.json'')"
    by blast
  from o(1) have "prefix opts = ''fetch''"
    by (auto simp: wrapAsyncMethod_options_def or_else_def)
  with o have "fixture_path sample_lib opts ''[1]'' = ''test/data/fetch-080a9ed42855.json''"
    by (simp add: sample_lib_def)
  with o show ?thesis by auto
qed

end
